theory Spec2Isabelle
  imports Main "HOL-Library.Char_ord"
begin

section \<open>JavaScript strings\<close>

text \<open>
  Strings are lists of characters. Isabelle's \<open>char\<close> has 8 bits, so the model covers
  the strings whose code units are below 256; every pattern and literal of the engine is
  ASCII.
\<close>

definition startsWith :: "string \<Rightarrow> string \<Rightarrow> bool" where
  \<comment> \<open>\<open>v.startsWith(p)\<close>\<close>
  "startsWith v p = (take (length p) v = p)"

fun jsSplit :: "char \<Rightarrow> string \<Rightarrow> string list" where
  \<comment> \<open>\<open>s.split(sep)\<close> for a separator of one character: \<open>"".split(".")\<close> is \<open>[""]\<close>\<close>
  "jsSplit sep [] = [[]]"
| "jsSplit sep (c # cs) =
     (if c = sep then [] # jsSplit sep cs
      else (case jsSplit sep cs of [] \<Rightarrow> [[c]] | w # ws \<Rightarrow> (c # w) # ws))"

definition isWhiteSpace :: "char \<Rightarrow> bool" where
  \<comment> \<open>white space and line terminators below 256: TAB, LF, VT, FF, CR, SP, NBSP\<close>
  "isWhiteSpace c = (c \<in> set [CHR 0x09, CHR 0x0A, CHR 0x0B, CHR 0x0C, CHR 0x0D, CHR 0x20, CHR 0xA0])"

definition trim :: "string \<Rightarrow> string" where
  \<comment> \<open>\<open>s.trim()\<close>\<close>
  "trim s = rev (dropWhile isWhiteSpace (rev (dropWhile isWhiteSpace s)))"

definition substring :: "string \<Rightarrow> nat \<Rightarrow> nat \<Rightarrow> string" where
  "substring s i e = take (e - i) (drop i s)"

section \<open>Regular expressions\<close>

text \<open>
  The engine's seven regular expressions are sequences of literal characters, character
  classes under a greedy counted quantifier, word boundaries and the two anchors. A pattern
  is the list of these atoms; a class is its list of ranges.
\<close>

datatype atom =
    Bol                                       \<comment> \<open>\<open>^\<close>\<close>
  | Eol                                       \<comment> \<open>\<open>$\<close>\<close>
  | WordB                                     \<comment> \<open>\<open>\b\<close>\<close>
  | Lit char
  | Rep "(char \<times> char) list" nat "nat option"  \<comment> \<open>\<open>[...]{lo,hi}\<close>; no upper bound for \<open>+\<close>\<close>

record regexp =
  ignoreCase :: bool
  atoms :: "atom list"

definition inRanges :: "(char \<times> char) list \<Rightarrow> char \<Rightarrow> bool" where
  "inRanges rs c = list_ex (\<lambda>(lo, hi). lo \<le> c \<and> c \<le> hi) rs"

definition toUpperAscii :: "char \<Rightarrow> char" where
  "toUpperAscii c = (if CHR ''a'' \<le> c \<and> c \<le> CHR ''z'' then char_of (of_char c - (32::nat)) else c)"

definition toLowerAscii :: "char \<Rightarrow> char" where
  "toLowerAscii c = (if CHR ''A'' \<le> c \<and> c \<le> CHR ''Z'' then char_of (of_char c + (32::nat)) else c)"

definition classMatches :: "bool \<Rightarrow> (char \<times> char) list \<Rightarrow> char \<Rightarrow> bool" where
  \<comment> \<open>Under the \<open>i\<close> flag a character matches a class when a member of the class has the
      same canonical (upper case) form. The classes here have ASCII members only, whose
      canonical forms no character from 128 on shares.\<close>
  "classMatches ic rs c =
     (inRanges rs c \<or> (ic \<and> (inRanges rs (toUpperAscii c) \<or> inRanges rs (toLowerAscii c))))"

definition litMatches :: "bool \<Rightarrow> char \<Rightarrow> char \<Rightarrow> bool" where
  "litMatches ic l c = (c = l \<or> (ic \<and> toUpperAscii c = toUpperAscii l))"

definition isWordChar :: "char \<Rightarrow> bool" where
  \<comment> \<open>\<open>\w\<close>\<close>
  "isWordChar c =
     inRanges [(CHR ''a'', CHR ''z''), (CHR ''A'', CHR ''Z''), (CHR ''0'', CHR ''9''), (CHR ''_'', CHR ''_'')] c"

definition isWordBoundary :: "string \<Rightarrow> nat \<Rightarrow> bool" where
  "isWordBoundary s i =
     ((0 < i \<and> isWordChar (s ! (i - 1))) \<noteq> (i < length s \<and> isWordChar (s ! i)))"

fun firstSome :: "('a \<Rightarrow> 'b option) \<Rightarrow> 'a list \<Rightarrow> 'b option" where
  "firstSome f [] = None"
| "firstSome f (x # xs) = (case f x of Some y \<Rightarrow> Some y | None \<Rightarrow> firstSome f xs)"

text \<open>
  \<open>matchAt ic r s i\<close> is the end of the match of the pattern \<open>r\<close> that starts at position
  \<open>i\<close> of \<open>s\<close>, as the backtracking matcher finds it: a quantifier first takes as many
  characters as it may and gives them back one at a time while the rest of the pattern
  fails.
\<close>

fun matchAt :: "bool \<Rightarrow> atom list \<Rightarrow> string \<Rightarrow> nat \<Rightarrow> nat option" where
  "matchAt ic [] s i = Some i"
| "matchAt ic (Bol # r) s i = (if i = 0 then matchAt ic r s i else None)"
| "matchAt ic (Eol # r) s i = (if i = length s then matchAt ic r s i else None)"
| "matchAt ic (WordB # r) s i = (if isWordBoundary s i then matchAt ic r s i else None)"
| "matchAt ic (Lit c # r) s i =
     (if i < length s \<and> litMatches ic c (s ! i) then matchAt ic r s (Suc i) else None)"
| "matchAt ic (Rep cls lo hi # r) s i =
     (let avail = length (takeWhile (classMatches ic cls) (drop i s));
          n = (case hi of None \<Rightarrow> avail | Some h \<Rightarrow> min h avail)
      in firstSome (\<lambda>k. matchAt ic r s (i + k)) (rev [lo..<Suc n]))"

definition regexExec :: "regexp \<Rightarrow> string \<Rightarrow> nat \<Rightarrow> (nat \<times> nat) option" where
  \<comment> \<open>one call of \<open>r.exec(s)\<close> with \<open>r.lastIndex = lastIndex\<close>: the leftmost match that
      starts at \<open>lastIndex\<close> or later, as (start, end)\<close>
  "regexExec re s lastIndex =
     firstSome (\<lambda>j. map_option (Pair j) (matchAt (ignoreCase re) (atoms re) s j))
       [lastIndex..<Suc (length s)]"

definition regexTest :: "regexp \<Rightarrow> string \<Rightarrow> bool" where
  \<comment> \<open>\<open>r.test(s)\<close> for a regular expression without the \<open>g\<close> flag\<close>
  "regexTest re s = (regexExec re s 0 \<noteq> None)"

lemma regexExec_bounds:
  assumes "regexExec re s li = Some (j, e)"
  shows "li \<le> j \<and> j \<le> length s \<and> matchAt (ignoreCase re) (atoms re) s j = Some e"
proof -
  have "firstSome f xs = Some (j, e) \<Longrightarrow> \<exists>x \<in> set xs. f x = Some (j, e)" for f :: "nat \<Rightarrow> (nat \<times> nat) option" and xs
    by (induction xs) (auto split: option.splits)
  from this [OF assms [unfolded regexExec_def]] show ?thesis
    by auto
qed

text \<open>
  The loop \<open>while ((m = r.exec(text)) !== null) literals.push(m[0])\<close> of a global regular
  expression: \<open>exec\<close> leaves \<open>lastIndex\<close> at the end of the match, so an empty match at
  \<open>lastIndex\<close> is found again for ever. \<open>None\<close> is the loop that does not return.
\<close>

function execAll :: "regexp \<Rightarrow> string \<Rightarrow> nat \<Rightarrow> string list option" where
  "execAll re s lastIndex =
     (case regexExec re s lastIndex of
        None \<Rightarrow> Some []
      | Some (j, e) \<Rightarrow>
          if e \<le> lastIndex then None
          else map_option ((#) (substring s j e)) (execAll re s e))"
  by pat_completeness auto
termination
proof (relation "measure (\<lambda>(re, s, li). Suc (length s) - li)")
  show "wf (measure (\<lambda>(re, s, li). Suc (length s) - li))"
    by simp
next
  fix re :: regexp and s :: string and lastIndex :: nat and x2 :: "nat \<times> nat" and j e :: nat
  assume "regexExec re s lastIndex = Some x2" and "(j, e) = x2" and "\<not> e \<le> lastIndex"
  then have "lastIndex \<le> length s"
    using regexExec_bounds [of re s lastIndex j e] by simp
  with \<open>\<not> e \<le> lastIndex\<close>
  show "((re, s, e), (re, s, lastIndex)) \<in> measure (\<lambda>(re, s, li). Suc (length s) - li)"
    by simp
qed

section \<open>Utilities of the correlation engine\<close>

definition hexRanges :: "(char \<times> char) list" where
  "hexRanges = [(CHR ''0'', CHR ''9''), (CHR ''a'', CHR ''f'')]"

definition jwtRanges :: "(char \<times> char) list" where
  "jwtRanges = [(CHR ''a'', CHR ''z''), (CHR ''A'', CHR ''Z''), (CHR ''0'', CHR ''9''),
     (CHR ''.'', CHR ''.''), (CHR ''_'', CHR ''_''), (CHR ''-'', CHR ''-'')]"

definition digitRanges :: "(char \<times> char) list" where
  "digitRanges = [(CHR ''0'', CHR ''9'')]"

definition alnumRanges :: "(char \<times> char) list" where
  "alnumRanges = [(CHR ''a'', CHR ''z''), (CHR ''A'', CHR ''Z''), (CHR ''0'', CHR ''9'')]"

definition uuidBody :: "atom list" where
  \<comment> \<open>\<open>[0-9a-f]{8}-[0-9a-f]{4}-[0-9a-f]{4}-[0-9a-f]{4}-[0-9a-f]{12}\<close>\<close>
  "uuidBody =
     [Rep hexRanges 8 (Some 8), Lit CHR ''-'', Rep hexRanges 4 (Some 4), Lit CHR ''-'',
      Rep hexRanges 4 (Some 4), Lit CHR ''-'', Rep hexRanges 4 (Some 4), Lit CHR ''-'',
      Rep hexRanges 12 (Some 12)]"

definition uuidRegex :: regexp where
  "uuidRegex = \<lparr>ignoreCase = True, atoms = [WordB] @ uuidBody @ [WordB]\<rparr>"

definition jwtRegex :: regexp where
  \<comment> \<open>\<open>eyJ[a-zA-Z0-9._-]+\.[a-zA-Z0-9._-]+\.[a-zA-Z0-9._-]+\<close>\<close>
  "jwtRegex = \<lparr>ignoreCase = False, atoms =
     [Lit CHR ''e'', Lit CHR ''y'', Lit CHR ''J'', Rep jwtRanges 1 None, Lit CHR ''.'',
      Rep jwtRanges 1 None, Lit CHR ''.'', Rep jwtRanges 1 None]\<rparr>"

definition numRegex :: regexp where
  \<comment> \<open>\<open>\b\d{6,14}\b\<close>\<close>
  "numRegex = \<lparr>ignoreCase = False, atoms = [WordB, Rep digitRanges 6 (Some 14), WordB]\<rparr>"

definition alphaNumRegex :: regexp where
  \<comment> \<open>\<open>\b[a-zA-Z0-9]{6,20}\b\<close>\<close>
  "alphaNumRegex = \<lparr>ignoreCase = False, atoms = [WordB, Rep alnumRanges 6 (Some 20), WordB]\<rparr>"

definition extractLiterals :: "string \<Rightarrow> string list option" where
  "extractLiterals text =
     (if text = [] then Some []
      else (case execAll uuidRegex text 0 of None \<Rightarrow> None | Some us \<Rightarrow>
            (case execAll jwtRegex text 0 of None \<Rightarrow> None | Some js \<Rightarrow>
            (case execAll numRegex text 0 of None \<Rightarrow> None | Some ns \<Rightarrow>
            (case execAll alphaNumRegex text 0 of None \<Rightarrow> None | Some as \<Rightarrow>
               Some (us @ js @ ns @ as))))))"

definition isIgnorable :: "string \<Rightarrow> bool" where
  "isIgnorable v =
     (if v = [] then True
      else if startsWith v ''${'' then True
      else if v = ''true'' \<or> v = ''false'' then True
      else if length v < 4 then True
      else False)"

definition looksLikeUUID :: "string \<Rightarrow> bool" where
  "looksLikeUUID v = regexTest \<lparr>ignoreCase = True, atoms = [Bol] @ uuidBody @ [Eol]\<rparr> v"

definition looksLikeJWT :: "string \<Rightarrow> bool" where
  "looksLikeJWT v = (startsWith v ''eyJ'' \<and> length (jsSplit CHR ''.'' v) = 3)"

definition looksLikeNumericId :: "string \<Rightarrow> bool" where
  "looksLikeNumericId v =
     regexTest \<lparr>ignoreCase = False, atoms = [Bol, Rep digitRanges 6 (Some 14), Eol]\<rparr> v"

definition looksLikeAlphaNumeric :: "string \<Rightarrow> bool" where
  "looksLikeAlphaNumeric v =
     regexTest \<lparr>ignoreCase = False, atoms = [Bol, Rep alnumRanges 6 (Some 20), Eol]\<rparr> v"

section \<open>Heuristics\<close>

datatype valueType = JWT_TOKEN | UUID | NUMERIC_ID | GENERIC_DYNAMIC_VALUE | UNKNOWN

datatype confidence = HIGH | MEDIUM | LOW

definition classifyValue :: "string \<Rightarrow> valueType" where
  "classifyValue v =
     (if looksLikeJWT v then JWT_TOKEN
      else if looksLikeUUID v then UUID
      else if looksLikeNumericId v then NUMERIC_ID
      else if looksLikeAlphaNumeric v then GENERIC_DYNAMIC_VALUE
      else UNKNOWN)"

definition calculateConfidence :: "string \<Rightarrow> 'occ list \<Rightarrow> confidence" where
  "calculateConfidence v occurrences =
     (if 3 \<le> length occurrences then HIGH
      else if looksLikeJWT v \<or> looksLikeUUID v then HIGH
      else if looksLikeNumericId v then MEDIUM
      else LOW)"

record recommendation =
  extractor :: string
  variableName :: string
  regex :: "string option"
  jsonPath :: "string option"
  usage :: string

definition buildRecommendation :: "string \<Rightarrow> valueType \<Rightarrow> recommendation" where
  "buildRecommendation v t =
     (case t of
        JWT_TOKEN \<Rightarrow>
          \<lparr>extractor = ''Regex Extractor'', variableName = ''jwt_token'',
           regex = Some ''eyJ[a-zA-Z0-9._-]+'', jsonPath = None,
           usage = ''Extract token from login response and use in Authorization header''\<rparr>
      | UUID \<Rightarrow>
          \<lparr>extractor = ''JSON Extractor'', variableName = ''uuid_var'',
           regex = None, jsonPath = Some ''$..id'',
           usage = ''Extract UUID from previous response''\<rparr>
      | NUMERIC_ID \<Rightarrow>
          \<lparr>extractor = ''JSON Extractor'', variableName = ''id_var'',
           regex = None, jsonPath = Some ''$..id'',
           usage = ''Replace hardcoded numeric ID with extracted variable''\<rparr>
      | _ \<Rightarrow>
          \<lparr>extractor = ''Regex / JSON Extractor'', variableName = ''dynamic_var'',
           regex = None, jsonPath = None,
           usage = ''Extract from previous response before reuse''\<rparr>)"

section \<open>The parsed document\<close>

text \<open>
  The XML parser returns text as strings, a repeated child as an array and an element as
  an object whose keys are \<open>$\<close> (the attributes), \<open>_\<close> (the text) and the names of its
  children, in insertion order. An object is the list of its entries; the parser never
  gives a key twice, and no key is an array index (an XML name does not start with a
  digit), so iterating over the entries in order is \<open>for (key in node)\<close>.
\<close>

datatype jsval = JString string | JArray "jsval list" | JObject "(string \<times> jsval) list"

datatype error = FileNotFound string | ReadError | ParseError | TypeError | NonTermination

definition getProp :: "jsval \<Rightarrow> string \<Rightarrow> jsval option" where
  \<comment> \<open>\<open>v.k\<close> for the data keys the engine reads (none of them is a property of a string
      or of an array); \<open>None\<close> is \<open>undefined\<close>\<close>
  "getProp v k = (case v of JObject kvs \<Rightarrow> map_of kvs k | _ \<Rightarrow> None)"

definition truthy :: "jsval option \<Rightarrow> bool" where
  "truthy x = (case x of None \<Rightarrow> False | Some (JString t) \<Rightarrow> t \<noteq> [] | Some _ \<Rightarrow> True)"

definition hasName :: "string \<Rightarrow> jsval \<Rightarrow> bool" where
  \<comment> \<open>\<open>(p) => p.$?.name === n\<close>\<close>
  "hasName n p = (Option.bind (getProp p ''$'') (\<lambda>a. getProp a ''name'') = Some (JString n))"

definition findStringProp :: "jsval \<Rightarrow> string \<Rightarrow> error + jsval option" where
  \<comment> \<open>\<open>x.stringProp?.find?.((p) => p.$?.name === n) || x.stringProp?.[n]\<close>: an array has
      the method \<open>find\<close> and no property \<open>n\<close>; a string has neither; an object has what
      its entries give it, and calling an entry \<open>find\<close> is a TypeError\<close>
  "findStringProp x n =
     (case getProp x ''stringProp'' of
        None \<Rightarrow> Inr None
      | Some (JString t) \<Rightarrow> Inr None
      | Some (JArray ps) \<Rightarrow> Inr (List.find (hasName n) ps)
      | Some (JObject kvs) \<Rightarrow>
          (case map_of kvs ''find'' of
             Some f \<Rightarrow> Inl TypeError
           | None \<Rightarrow> Inr (map_of kvs n)))"

definition trimmedText :: "jsval option \<Rightarrow> error + string option" where
  \<comment> \<open>\<open>if (p?._) { ... p._.trim() ... }\<close>: the trimmed text when \<open>p._\<close> is truthy; only
      a string has the method \<open>trim\<close>\<close>
  "trimmedText p =
     (case Option.bind p (\<lambda>v. getProp v ''_'') of
        None \<Rightarrow> Inr None
      | Some (JString t) \<Rightarrow> Inr (if t = [] then None else Some (trim t))
      | Some _ \<Rightarrow> Inl TypeError)"

section \<open>Query strings\<close>

text \<open>
  \<open>new URLSearchParams(query).values()\<close> is the platform's, not the engine's: it cuts the
  query at every \<open>&\<close>, and decodes \<open>+\<close>, percent escapes and UTF-8 in what follows the
  first \<open>=\<close> of a piece. The engine takes it as it is, so the model takes it as a
  parameter: \<open>qv query\<close> is the list of the values the platform gives for \<open>query\<close>.
\<close>

type_synonym queryValues = "string \<Rightarrow> string list"

section \<open>Extracting the values of a request\<close>

definition setAdd :: "string list \<Rightarrow> string \<Rightarrow> string list" where
  \<comment> \<open>\<open>values.add(v)\<close>: a Set keeps its members in insertion order\<close>
  "setAdd vs v = (if v \<in> set vs then vs else vs @ [v])"

definition setAddAll :: "string list \<Rightarrow> string list \<Rightarrow> string list" where
  \<comment> \<open>\<open>xs.forEach(v => values.add(v))\<close>\<close>
  "setAddAll vs xs = fold (\<lambda>v acc. setAdd acc v) xs vs"

definition addPathValues :: "queryValues \<Rightarrow> string list \<Rightarrow> string \<Rightarrow> error + string list" where
  \<comment> \<open>the body of \<open>if (pathProp?._)\<close>, for the trimmed text \<open>fullPath\<close>\<close>
  "addPathValues qv vs fullPath =
     (let query = (case jsSplit CHR ''?'' fullPath of _ # q # _ \<Rightarrow> q | _ \<Rightarrow> []);
          vs1 = (if query \<noteq> []
                 then setAddAll vs (filter (\<lambda>val. \<not> isIgnorable val) (qv query))
                 else vs)
      in case extractLiterals fullPath of
           None \<Rightarrow> Inl NonTermination
         | Some ls \<Rightarrow> Inr (setAddAll vs1 ls))"

definition addArgValues :: "string list \<Rightarrow> string \<Rightarrow> error + string list" where
  \<comment> \<open>the body of \<open>if (valProp?._)\<close>, for the trimmed text \<open>valText\<close>\<close>
  "addArgValues vs valText =
     (let vs1 = (if valText \<noteq> [] \<and> \<not> isIgnorable valText then setAdd vs valText else vs)
      in case extractLiterals valText of
           None \<Rightarrow> Inl NonTermination
         | Some ls \<Rightarrow> Inr (setAddAll vs1 ls))"

fun addArgs :: "jsval list \<Rightarrow> string list \<Rightarrow> error + string list" where
  \<comment> \<open>\<open>argList.forEach(arg => ...)\<close>\<close>
  "addArgs [] vs = Inr vs"
| "addArgs (arg # rest) vs =
     (case findStringProp arg ''Argument.value'' of
        Inl e \<Rightarrow> Inl e
      | Inr valProp \<Rightarrow>
          (case trimmedText valProp of
             Inl e \<Rightarrow> Inl e
           | Inr None \<Rightarrow> addArgs rest vs
           | Inr (Some valText) \<Rightarrow>
               (case addArgValues vs valText of
                  Inl e \<Rightarrow> Inl e
                | Inr vs' \<Rightarrow> addArgs rest vs')))"

definition argListOf :: "jsval \<Rightarrow> jsval list" where
  \<comment> \<open>\<open>sampler.elementProp?.collectionProp?.elementProp || []\<close>, made an array\<close>
  "argListOf sampler =
     (let args = Option.bind (Option.bind (getProp sampler ''elementProp'')
                   (\<lambda>e. getProp e ''collectionProp'')) (\<lambda>c. getProp c ''elementProp'')
      in if truthy args then (case args of Some (JArray xs) \<Rightarrow> xs | Some v \<Rightarrow> [v] | None \<Rightarrow> [])
         else [])"

definition extractRequestValues :: "queryValues \<Rightarrow> jsval \<Rightarrow> error + string list" where
  "extractRequestValues qv sampler =
     (case findStringProp sampler ''HTTPSampler.path'' of
        Inl e \<Rightarrow> Inl e
      | Inr pathProp \<Rightarrow>
          (case trimmedText pathProp of
             Inl e \<Rightarrow> Inl e
           | Inr None \<Rightarrow> addArgs (argListOf sampler) []
           | Inr (Some fullPath) \<Rightarrow>
               (case addPathValues qv [] fullPath of
                  Inl e \<Rightarrow> Inl e
                | Inr vs \<Rightarrow> addArgs (argListOf sampler) vs)))"

section \<open>Collecting the samplers\<close>

record sampler =
  order :: nat
  name :: jsval
  requestValues :: "string list"

function showNat :: "nat \<Rightarrow> string" where
  \<comment> \<open>the decimal digits of the counter, as the template literal prints it\<close>
  "showNat n =
     (if n < 10 then [char_of (48 + n)] else showNat (n div 10) @ [char_of (48 + n mod 10)])"
  by pat_completeness auto
termination
  by (relation "measure id") auto

definition nameOrDefault :: "jsval \<Rightarrow> nat \<Rightarrow> jsval" where
  \<comment> \<open>\<open>s.$?.testname || `Sampler-${order.index}`\<close>\<close>
  "nameOrDefault s idx =
     (let t = Option.bind (getProp s ''$'') (\<lambda>a. getProp a ''testname'')
      in if truthy t then (case t of Some v \<Rightarrow> v | None \<Rightarrow> JString [])
         else JString (''Sampler-'' @ showNat idx))"

fun pushSamplers ::
  "queryValues \<Rightarrow> jsval list \<Rightarrow> sampler list \<times> nat \<Rightarrow> error + (sampler list \<times> nat)" where
  \<comment> \<open>\<open>samplers.forEach(s => { order.index++; result.push({...}) })\<close>, on the result list
      and the counter\<close>
  "pushSamplers qv [] st = Inr st"
| "pushSamplers qv (s # ss) (result, idx) =
     (case extractRequestValues qv s of
        Inl e \<Rightarrow> Inl e
      | Inr vals \<Rightarrow>
          pushSamplers qv ss
            (result @ [\<lparr>order = Suc idx, name = nameOrDefault s (Suc idx), requestValues = vals\<rparr>],
             Suc idx))"

definition proxiesOf :: "jsval \<Rightarrow> jsval list" where
  \<comment> \<open>the samplers a node holds: none unless \<open>node.HTTPSamplerProxy\<close> is truthy, else the
      array's elements or the one value\<close>
  "proxiesOf node =
     (let p = getProp node ''HTTPSamplerProxy''
      in if truthy p then (case p of Some (JArray xs) \<Rightarrow> xs | Some v \<Rightarrow> [v] | None \<Rightarrow> [])
         else [])"

fun collectHTTPSamplers ::
    "queryValues \<Rightarrow> jsval \<Rightarrow> sampler list \<times> nat \<Rightarrow> error + (sampler list \<times> nat)"
  and collectElements ::
    "queryValues \<Rightarrow> jsval list \<Rightarrow> sampler list \<times> nat \<Rightarrow> error + (sampler list \<times> nat)"
  and collectEntries ::
    "queryValues \<Rightarrow> (string \<times> jsval) list \<Rightarrow> sampler list \<times> nat \<Rightarrow> error + (sampler list \<times> nat)"
where
  "collectHTTPSamplers qv (JString t) st = Inr st"
| "collectHTTPSamplers qv (JArray xs) st = collectElements qv xs st"
| "collectHTTPSamplers qv (JObject kvs) st =
     (case pushSamplers qv (proxiesOf (JObject kvs)) st of
        Inl e \<Rightarrow> Inl e
      | Inr st' \<Rightarrow> collectEntries qv kvs st')"
| "collectElements qv [] st = Inr st"
| "collectElements qv (x # xs) st =
     (case collectHTTPSamplers qv x st of Inl e \<Rightarrow> Inl e | Inr st' \<Rightarrow> collectElements qv xs st')"
| "collectEntries qv [] st = Inr st"
| "collectEntries qv ((k, v) # kvs) st =
     (case collectHTTPSamplers qv v st of Inl e \<Rightarrow> Inl e | Inr st' \<Rightarrow> collectEntries qv kvs st')"

section \<open>Detection logic\<close>

record occurrence =
  samplerName :: jsval
  occOrder :: nat  \<comment> \<open>the field \<open>order\<close> of an occurrence; the sampler's has the name\<close>

type_synonym valueIndex = "(string \<times> occurrence list) list"

definition indexAdd :: "valueIndex \<Rightarrow> string \<Rightarrow> occurrence \<Rightarrow> valueIndex" where
  \<comment> \<open>\<open>if (!index.has(value)) index.set(value, []); index.get(value).push(occ)\<close>: a Map
      keeps its keys in insertion order\<close>
  "indexAdd index v occ =
     (let index' = (if map_of index v = None then index @ [(v, [])] else index)
      in map (\<lambda>(k, occs). if k = v then (k, occs @ [occ]) else (k, occs)) index')"

definition indexSampler :: "sampler \<Rightarrow> valueIndex \<Rightarrow> valueIndex" where
  \<comment> \<open>\<open>sampler.requestValues.forEach(value => ...)\<close>\<close>
  "indexSampler s index =
     fold (\<lambda>v idx. if isIgnorable v then idx
                    else indexAdd idx v \<lparr>samplerName = name s, occOrder = order s\<rparr>)
       (requestValues s) index"

definition buildValueIndex :: "sampler list \<Rightarrow> valueIndex" where
  "buildValueIndex samplers = fold indexSampler samplers []"

record suggestion =
  detectedValue :: string
  valueType :: valueType
  confidence :: confidence
  usedInSamplers :: "jsval list"
  recommendation :: recommendation

definition suggest :: "string \<times> occurrence list \<Rightarrow> suggestion" where
  \<comment> \<open>the body of the loop over \<open>index.entries()\<close>\<close>
  "suggest entry =
     (case entry of (v, occurrences) \<Rightarrow>
        (let c = calculateConfidence v occurrences;
             t = classifyValue v
         in \<lparr>detectedValue = v, valueType = t, confidence = c,
             usedInSamplers = map samplerName occurrences,
             recommendation = buildRecommendation v t\<rparr>))"

definition buildCorrelationSuggestions :: "valueIndex \<Rightarrow> suggestion list" where
  "buildCorrelationSuggestions index = map suggest index"

section \<open>Entry point\<close>

record report =
  jmxFile :: string
  samplersScanned :: nat
  correlationCandidates :: nat
  suggestions :: "suggestion list"

definition analyzeDocument :: "queryValues \<Rightarrow> string \<Rightarrow> jsval \<Rightarrow> error + report" where
  \<comment> \<open>\<open>analyzeJMXForCorrelation\<close> from the parsed tree on; \<open>file\<close> is the base name of the
      path\<close>
  "analyzeDocument qv file parsed =
     (case collectHTTPSamplers qv parsed ([], 0) of
        Inl e \<Rightarrow> Inl e
      | Inr (samplers, n) \<Rightarrow>
          (let valueIndex = buildValueIndex samplers;
               sugg = buildCorrelationSuggestions valueIndex
           in Inr \<lparr>jmxFile = file, samplersScanned = length samplers,
                   correlationCandidates = length sugg, suggestions = sugg\<rparr>))"

text \<open>
  The file system, the XML parser, \<open>path.basename\<close> and \<open>URLSearchParams\<close> are the
  platform's. \<open>existsSync\<close> says whether the path exists; \<open>readFileSync\<close> is the text of
  the file, \<open>None\<close> where reading throws (a directory, a file that may not be read);
  \<open>parseXml\<close> is \<open>None\<close> where the parser rejects the text.
\<close>

record platform =
  existsSync :: "string \<Rightarrow> bool"
  readFileSync :: "string \<Rightarrow> string option"
  parseXml :: "string \<Rightarrow> jsval option"
  basename :: "string \<Rightarrow> string"
  searchParamsValues :: queryValues

definition analyzeJMXForCorrelation :: "platform \<Rightarrow> string \<Rightarrow> error + report" where
  "analyzeJMXForCorrelation pf jmxFilePath =
     (if \<not> existsSync pf jmxFilePath then Inl (FileNotFound jmxFilePath)
      else
        (case readFileSync pf jmxFilePath of
           None \<Rightarrow> Inl ReadError
         | Some xml \<Rightarrow>
             (case parseXml pf xml of
                None \<Rightarrow> Inl ParseError
              | Some parsed \<Rightarrow>
                  analyzeDocument (searchParamsValues pf) (basename pf jmxFilePath) parsed)))"

section \<open>Measures of a pattern\<close>

text \<open>
  The least length of a match of a pattern, and the characters a match can hold.
\<close>

fun atomLen :: "atom \<Rightarrow> nat" where
  "atomLen (Lit c) = 1"
| "atomLen (Rep cls lo hi) = lo"
| "atomLen a = 0"

definition minLen :: "atom list \<Rightarrow> nat" where
  "minLen r = sum_list (map atomLen r)"

fun atomAccepts :: "bool \<Rightarrow> atom \<Rightarrow> char \<Rightarrow> bool" where
  "atomAccepts ic (Lit l) c = litMatches ic l c"
| "atomAccepts ic (Rep cls lo hi) c = classMatches ic cls c"
| "atomAccepts ic a c = False"

definition accepts :: "bool \<Rightarrow> atom list \<Rightarrow> char \<Rightarrow> bool" where
  "accepts ic r c = list_ex (\<lambda>a. atomAccepts ic a c) r"

definition subMatchOk :: "string \<Rightarrow> bool" where
  "subMatchOk m = (6 \<le> length m \<and> \<not> startsWith m ''${'' \<and> m \<noteq> ''true'' \<and> m \<noteq> ''false'')"

text \<open>
  The occurrences the index holds for a value (none for a value that is no key), the
  occurrence a sampler is entered with, and the state of the traversal in which the
  samplers collected so far are numbered from 1 and hold no value twice.
\<close>

definition occsOf :: "valueIndex \<Rightarrow> string \<Rightarrow> occurrence list" where
  "occsOf index v = (case map_of index v of None \<Rightarrow> [] | Some occs \<Rightarrow> occs)"

definition occOf :: "sampler \<Rightarrow> occurrence" where
  "occOf s = \<lparr>samplerName = name s, occOrder = order s\<rparr>"

definition numbered :: "sampler list \<times> nat \<Rightarrow> bool" where
  "numbered st =
     (map order (fst st) = [1..<Suc (snd st)] \<and>
      (\<forall>s \<in> set (fst st). distinct (requestValues s)))"

text \<open>
  The trees on which no lookup of the engine fails: an object that is the value of a key
  \<open>stringProp\<close> has no entry \<open>find\<close>, and the value of a key \<open>_\<close> is a string.
\<close>

definition isString :: "jsval \<Rightarrow> bool" where
  "isString v = (case v of JString t \<Rightarrow> True | _ \<Rightarrow> False)"

definition noFind :: "jsval \<Rightarrow> bool" where
  "noFind v = (case v of JObject kvs \<Rightarrow> map_of kvs ''find'' = None | _ \<Rightarrow> True)"

fun wellShaped :: "jsval \<Rightarrow> bool"
  and wellShapedElements :: "jsval list \<Rightarrow> bool"
  and wellShapedEntries :: "(string \<times> jsval) list \<Rightarrow> bool"
where
  "wellShaped (JString t) = True"
| "wellShaped (JArray xs) = wellShapedElements xs"
| "wellShaped (JObject kvs) = wellShapedEntries kvs"
| "wellShapedElements [] = True"
| "wellShapedElements (x # xs) = (wellShaped x \<and> wellShapedElements xs)"
| "wellShapedEntries [] = True"
| "wellShapedEntries ((k, v) # kvs) =
     ((k = ''stringProp'' \<longrightarrow> noFind v) \<and> (k = ''_'' \<longrightarrow> isString v) \<and> wellShaped v \<and> wellShapedEntries kvs)"

text \<open>
  The request samplers of a document, in the order in which the traversal meets them: the
  samplers every object holds, before those of its entries.
\<close>

fun samplerNodes :: "jsval \<Rightarrow> jsval list"
  and samplerNodesElements :: "jsval list \<Rightarrow> jsval list"
  and samplerNodesEntries :: "(string \<times> jsval) list \<Rightarrow> jsval list"
where
  "samplerNodes (JString t) = []"
| "samplerNodes (JArray xs) = samplerNodesElements xs"
| "samplerNodes (JObject kvs) = proxiesOf (JObject kvs) @ samplerNodesEntries kvs"
| "samplerNodesElements [] = []"
| "samplerNodesElements (x # xs) = samplerNodes x @ samplerNodesElements xs"
| "samplerNodesEntries [] = []"
| "samplerNodesEntries ((k, v) # kvs) = samplerNodes v @ samplerNodesEntries kvs"

section \<open>The shapes of section 4.3, in the specification's words\<close>

text \<open>
  These definitions follow the specification, not the code: a canonical UUID is 36
  characters, hyphens at positions 8, 13, 18 and 23 and hexadecimal digits of either case
  elsewhere; a JWT begins with \<open>eyJ\<close> and is three segments of base64url characters
  separated by dots; a numeric run is 6 to 14 digits; an alphanumeric run is 6 to 20 letters
  or digits. \<open>spec_classifyValue\<close> is section 4.5's priority order over them.
\<close>

definition isDigit :: "char \<Rightarrow> bool" where
  "isDigit c = (CHR ''0'' \<le> c \<and> c \<le> CHR ''9'')"

definition isHexDigit :: "char \<Rightarrow> bool" where
  "isHexDigit c =
     (isDigit c \<or> (CHR ''a'' \<le> c \<and> c \<le> CHR ''f'') \<or> (CHR ''A'' \<le> c \<and> c \<le> CHR ''F''))"

definition isAlphaNumeric :: "char \<Rightarrow> bool" where
  "isAlphaNumeric c =
     (isDigit c \<or> (CHR ''a'' \<le> c \<and> c \<le> CHR ''z'') \<or> (CHR ''A'' \<le> c \<and> c \<le> CHR ''Z''))"

definition isBase64Url :: "char \<Rightarrow> bool" where
  "isBase64Url c = (isAlphaNumeric c \<or> c = CHR ''-'' \<or> c = CHR ''_'')"

definition uuidShape :: "string \<Rightarrow> bool" where
  "uuidShape v =
     (length v = 36 \<and>
      list_all (\<lambda>i. if i \<in> set [8, 13, 18, 23] then v ! i = CHR ''-'' else isHexDigit (v ! i)) [0..<36])"

definition jwtShape :: "string \<Rightarrow> bool" where
  "jwtShape v =
     (startsWith v ''eyJ'' \<and>
      (case jsSplit CHR ''.'' v of
         [a, b, c] \<Rightarrow> list_all (\<lambda>seg. seg \<noteq> [] \<and> list_all isBase64Url seg) [a, b, c]
       | _ \<Rightarrow> False))"

definition numericShape :: "string \<Rightarrow> bool" where
  "numericShape v = (6 \<le> length v \<and> length v \<le> 14 \<and> list_all isDigit v)"

definition alphaNumericShape :: "string \<Rightarrow> bool" where
  "alphaNumericShape v = (6 \<le> length v \<and> length v \<le> 20 \<and> list_all isAlphaNumeric v)"

definition spec_classifyValue :: "string \<Rightarrow> valueType" where
  "spec_classifyValue v =
     (if jwtShape v then JWT_TOKEN
      else if uuidShape v then UUID
      else if numericShape v then NUMERIC_ID
      else if alphaNumericShape v then GENERIC_DYNAMIC_VALUE
      else UNKNOWN)"

text \<open>
  First-seen order: every element is kept where it is seen for the first time.
\<close>

primrec firstSeenFrom :: "'a list \<Rightarrow> 'a list \<Rightarrow> 'a list" where
  "firstSeenFrom seen [] = []"
| "firstSeenFrom seen (x # xs) =
     (if x \<in> set seen then firstSeenFrom seen xs else x # firstSeenFrom (x # seen) xs)"

definition firstSeen :: "'a list \<Rightarrow> 'a list" where
  "firstSeen xs = firstSeenFrom [] xs"

section \<open>Documents of the scenarios\<close>

text \<open>
  The parsed trees of small test plans, as the parser returns them: an element with text
  and attributes is \<open>{_: text, $: {...}}\<close>, a child that occurs once is the child itself
  and one that occurs several times is an array.
\<close>

definition plainQueryValues :: queryValues where
  \<comment> \<open>the platform's values of a query that holds no \<open>%\<close> and no \<open>+\<close>, where decoding
      changes nothing: the pieces between \<open>&\<close> that are not empty, each from after its
      first \<open>=\<close> on. It stands for the platform's function in the scenarios, whose only
      query is \<open>status=true\<close>.\<close>
  "plainQueryValues query =
     map (\<lambda>piece. drop (Suc (length (takeWhile (\<lambda>c. c \<noteq> CHR ''='') piece))) piece)
       (filter (\<lambda>piece. piece \<noteq> []) (jsSplit CHR ''&'' query))"

definition textElement :: "string \<Rightarrow> string \<Rightarrow> jsval" where
  \<comment> \<open>\<open><stringProp name="n">text</stringProp>\<close>\<close>
  "textElement n text = JObject [(''_'', JString text), (''$'', JObject [(''name'', JString n)])]"

definition argumentElement :: "string \<Rightarrow> string \<Rightarrow> jsval" where
  \<comment> \<open>\<open><elementProp name="n" elementType="HTTPArgument">\<close> with its value and its name\<close>
  "argumentElement n v =
     JObject [(''$'', JObject [(''name'', JString n), (''elementType'', JString ''HTTPArgument'')]),
              (''stringProp'', JArray [textElement ''Argument.value'' v, textElement ''Argument.name'' n])]"

definition argumentsEntry :: "jsval \<Rightarrow> string \<times> jsval" where
  \<comment> \<open>the sampler's \<open>elementProp\<close> that holds the collection of its arguments\<close>
  "argumentsEntry args =
     (''elementProp'',
      JObject [(''$'', JObject [(''name'', JString ''HTTPsampler.Arguments''), (''elementType'', JString ''Arguments'')]),
               (''collectionProp'',
                JObject [(''$'', JObject [(''name'', JString ''Arguments.arguments'')]),
                         (''elementProp'', args)])])"

definition samplerElement :: "string \<Rightarrow> (string \<times> jsval) list \<Rightarrow> jsval" where
  \<comment> \<open>\<open><HTTPSamplerProxy testname="t">\<close> with its children\<close>
  "samplerElement t children = JObject ((''$'', JObject [(''testname'', JString t)]) # children)"

definition testPlan :: "jsval \<Rightarrow> jsval" where
  \<comment> \<open>the document whose tree holds the samplers \<open>proxies\<close>\<close>
  "testPlan proxies =
     JObject [(''jmeterTestPlan'',
               JObject [(''$'', JObject [(''version'', JString ''1.2'')]),
                        (''hashTree'', JObject [(''HTTPSamplerProxy'', proxies)])])]"

definition loginProfileDoc :: jsval where
  \<comment> \<open>request Login with the argument \<open>token\<close>, then request GetProfile with the argument
      \<open>Authorization\<close>, both of value \<open>eyJabc.def.ghi\<close>\<close>
  "loginProfileDoc =
     testPlan (JArray
       [samplerElement ''Login'' [argumentsEntry (argumentElement ''token'' ''eyJabc.def.ghi'')],
        samplerElement ''GetProfile''
          [argumentsEntry (argumentElement ''Authorization'' ''eyJabc.def.ghi'')]])"

definition ordersProps :: "jsval list" where
  \<comment> \<open>the string properties of a request as the repository's own converter writes them:
      domain, protocol, path and method\<close>
  "ordersProps =
     [textElement ''HTTPSampler.domain'' ''shop.example.com'',
      textElement ''HTTPSampler.protocol'' ''https'',
      textElement ''HTTPSampler.path'' ''/orders/123?status=true'',
      textElement ''HTTPSampler.method'' ''GET'']"

definition ordersSampler :: jsval where
  "ordersSampler =
     samplerElement ''GetOrder''
       [(''stringProp'', JArray ordersProps),
        (''boolProp'', JArray [textElement ''HTTPSampler.follow_redirects'' ''true'',
                               textElement ''HTTPSampler.use_keepalive'' ''true''])]"

definition ordersDoc :: jsval where
  \<comment> \<open>one request of path \<open>/orders/123?status=true\<close>, with no arguments\<close>
  "ordersDoc = testPlan ordersSampler"

definition ordersSingleDoc :: jsval where
  \<comment> \<open>the same request with the path as its only \<open>stringProp\<close> child: one child is the
      child itself, not an array\<close>
  "ordersSingleDoc =
     testPlan (samplerElement ''GetOrder''
       [(''stringProp'', textElement ''HTTPSampler.path'' ''/orders/123?status=true'')])"

definition cardDoc :: jsval where
  \<comment> \<open>one request with an argument of 16 digits\<close>
  "cardDoc =
     testPlan (samplerElement ''Pay''
       [argumentsEntry (argumentElement ''card'' ''1234567890123456'')])"

definition cardThriceDoc :: jsval where
  \<comment> \<open>three requests with the same argument of 16 digits\<close>
  "cardThriceDoc =
     testPlan (JArray
       [samplerElement ''Pay'' [argumentsEntry (argumentElement ''card'' ''1234567890123456'')],
        samplerElement ''Confirm'' [argumentsEntry (argumentElement ''card'' ''1234567890123456'')],
        samplerElement ''Receipt'' [argumentsEntry (argumentElement ''card'' ''1234567890123456'')]])"

definition findChildDoc :: jsval where
  \<comment> \<open>\<open><HTTPSamplerProxy><stringProp><find>x</find></stringProp></HTTPSamplerProxy>\<close>\<close>
  "findChildDoc =
     testPlan (JObject [(''stringProp'', JObject [(''find'', JString ''x'')])])"

section \<open>Properties of the matcher\<close>

lemma firstSome_Some:
  "firstSome f xs = Some y \<Longrightarrow> \<exists>x \<in> set xs. f x = Some y"
  by (induction xs) (auto split: option.splits)

lemma firstSome_None: "firstSome f xs = None \<longleftrightarrow> (\<forall>x \<in> set xs. f x = None)"
  by (induction xs) (auto split: option.splits)

lemma takeWhile_prefix_nth:
  assumes "k \<le> length (takeWhile P (drop i s))" and "i \<le> p" and "p < i + k"
  shows "P (s ! p)" and "p < length s"
proof -
  let ?t = "takeWhile P (drop i s)"
  have len: "length ?t \<le> length s - i"
    using length_takeWhile_le [of P "drop i s"] by simp
  have lt: "p - i < length ?t"
    using assms by arith
  then have "?t ! (p - i) \<in> set ?t"
    by (rule nth_mem)
  then have "P (?t ! (p - i))"
    by (rule set_takeWhileD [THEN conjunct2])
  moreover have "?t ! (p - i) = drop i s ! (p - i)"
    using lt by (rule takeWhile_nth)
  moreover have "p < length s"
    using lt len assms by arith
  ultimately show "P (s ! p)" and "p < length s"
    using assms by simp_all
qed

lemma matchAt_sound:
  "matchAt ic r s i = Some e \<Longrightarrow> i \<le> length s \<Longrightarrow>
     i + minLen r \<le> e \<and> e \<le> length s \<and> (\<forall>p. i \<le> p \<and> p < e \<longrightarrow> accepts ic r (s ! p))"
proof (induction ic r s i rule: matchAt.induct)
  case (1 ic s i)
  then show ?case by (auto simp add: minLen_def)
next
  case (2 ic r s i)
  then show ?case by (auto simp add: minLen_def accepts_def split: if_splits)
next
  case (3 ic r s i)
  then show ?case by (auto simp add: minLen_def accepts_def split: if_splits)
next
  case (4 ic r s i)
  then show ?case by (auto simp add: minLen_def accepts_def split: if_splits)
next
  case (5 ic c r s i)
  from "5.prems" have c: "i < length s" "litMatches ic c (s ! i)" and m: "matchAt ic r s (Suc i) = Some e"
    by (simp_all split: if_splits)
  from "5.IH" [OF _ m] c have ih: "Suc i + minLen r \<le> e" "e \<le> length s"
      "\<forall>p. Suc i \<le> p \<and> p < e \<longrightarrow> accepts ic r (s ! p)"
    by simp_all
  have "accepts ic (Lit c # r) (s ! p)" if "i \<le> p" "p < e" for p
  proof (cases "p = i")
    case True
    then show ?thesis using c by (simp add: accepts_def)
  next
    case False
    with that ih(3) show ?thesis by (simp add: accepts_def)
  qed
  with ih show ?case by (simp add: minLen_def)
next
  case (6 ic cls lo hi r s i)
  define avail where "avail = length (takeWhile (classMatches ic cls) (drop i s))"
  define n where "n = (case hi of None \<Rightarrow> avail | Some h \<Rightarrow> min h avail)"
  from "6.prems"(1) have "firstSome (\<lambda>k. matchAt ic r s (i + k)) (rev [lo..<Suc n]) = Some e"
    by (simp only: matchAt.simps Let_def avail_def n_def)
  then obtain k where k: "k \<in> set (rev [lo..<Suc n])" and m: "matchAt ic r s (i + k) = Some e"
    by (blast dest: firstSome_Some)
  have nle: "n \<le> avail"
    by (simp add: n_def split: option.splits)
  from k nle have kb: "lo \<le> k" "k \<le> avail"
    by auto
  have al: "avail \<le> length s - i"
    unfolding avail_def using length_takeWhile_le [of "classMatches ic cls" "drop i s"] by simp
  with kb "6.prems"(2) have ik: "i + k \<le> length s"
    by arith
  from "6.IH" [OF refl refl m ik]
  have ih: "i + k + minLen r \<le> e" "e \<le> length s"
      "\<forall>p. i + k \<le> p \<and> p < e \<longrightarrow> accepts ic r (s ! p)"
    by simp_all
  have "accepts ic (Rep cls lo hi # r) (s ! p)" if "i \<le> p" "p < e" for p
  proof (cases "p < i + k")
    case True
    with kb that have "classMatches ic cls (s ! p)"
      using takeWhile_prefix_nth(1) [of k "classMatches ic cls" i s p] by (simp add: avail_def)
    then show ?thesis by (simp add: accepts_def)
  next
    case False
    with that ih(3) show ?thesis by (simp add: accepts_def)
  qed
  with ih kb show ?case by (simp add: minLen_def)
qed

lemma execAll_total:
  "0 < minLen (atoms re) \<Longrightarrow>
     \<exists>ls. execAll re s li = Some ls \<and>
           (\<forall>m \<in> set ls. minLen (atoms re) \<le> length m \<and>
               (\<forall>c \<in> set m. accepts (ignoreCase re) (atoms re) c))"
proof (induction re s li rule: execAll.induct)
  case (1 re s li)
  note pos = "1.prems"
  show ?case
  proof (cases "regexExec re s li")
    case None
    then show ?thesis by (subst execAll.simps) simp
  next
    case (Some je)
    obtain j e where je: "je = (j, e)"
      by (cases je)
    from regexExec_bounds [OF Some [unfolded je]]
    have b: "li \<le> j" "j \<le> length s" and m: "matchAt (ignoreCase re) (atoms re) s j = Some e"
      by simp_all
    from matchAt_sound [OF m b(2)]
    have snd: "j + minLen (atoms re) \<le> e" "e \<le> length s"
        "\<forall>p. j \<le> p \<and> p < e \<longrightarrow> accepts (ignoreCase re) (atoms re) (s ! p)"
      by simp_all
    from snd(1) b(1) pos have prog: "\<not> e \<le> li"
      by arith
    from "1.IH" [OF Some je [symmetric] prog pos]
    obtain ls where ls: "execAll re s e = Some ls"
        "\<forall>m \<in> set ls. minLen (atoms re) \<le> length m \<and>
               (\<forall>c \<in> set m. accepts (ignoreCase re) (atoms re) c)"
      by blast
    have len: "minLen (atoms re) \<le> length (substring s j e)"
      using snd by (simp add: substring_def)
    have "accepts (ignoreCase re) (atoms re) c" if "c \<in> set (substring s j e)" for c
    proof -
      from that obtain q where q: "q < length (substring s j e)" "c = substring s j e ! q"
        by (auto simp: in_set_conv_nth)
      with snd have "q < e - j" "c = s ! (j + q)"
        by (simp_all add: substring_def)
      with snd(3) show ?thesis
        by simp
    qed
    with len ls Some je prog show ?thesis
      by (subst execAll.simps) simp
  qed
qed

lemma subMatchOk_not_ignorable: "subMatchOk m \<Longrightarrow> \<not> isIgnorable m"
  by (auto simp: subMatchOk_def isIgnorable_def)

lemma execAll_subMatchOk:
  assumes len: "6 \<le> minLen (atoms re)"
    and dollar: "\<not> accepts (ignoreCase re) (atoms re) CHR ''$''"
  shows "\<exists>ls. execAll re s li = Some ls \<and> list_all subMatchOk ls"
proof -
  from len have "0 < minLen (atoms re)"
    by simp
  from execAll_total [OF this, of s li]
  obtain ls where ls: "execAll re s li = Some ls"
      "\<forall>m \<in> set ls. minLen (atoms re) \<le> length m \<and>
               (\<forall>c \<in> set m. accepts (ignoreCase re) (atoms re) c)"
    by blast
  have "subMatchOk m" if "m \<in> set ls" for m
  proof -
    from ls(2) that len have l6: "6 \<le> length m"
      and acc: "\<forall>c \<in> set m. accepts (ignoreCase re) (atoms re) c"
      by auto
    from l6 obtain c cs where m: "m = c # cs"
      by (cases m) auto
    with acc dollar have "c \<noteq> CHR ''$''"
      by auto
    with m l6 show ?thesis
      by (auto simp: subMatchOk_def startsWith_def)
  qed
  with ls(1) show ?thesis
    by (auto simp: list_all_iff)
qed

lemma uuidRegex_ok: "6 \<le> minLen (atoms uuidRegex)" "\<not> accepts (ignoreCase uuidRegex) (atoms uuidRegex) CHR ''$''"
  by (simp_all add: uuidRegex_def uuidBody_def minLen_def accepts_def hexRanges_def
      classMatches_def litMatches_def inRanges_def toUpperAscii_def toLowerAscii_def)

lemma jwtRegex_ok: "6 \<le> minLen (atoms jwtRegex)" "\<not> accepts (ignoreCase jwtRegex) (atoms jwtRegex) CHR ''$''"
  by (simp_all add: jwtRegex_def minLen_def accepts_def jwtRanges_def
      classMatches_def litMatches_def inRanges_def)

lemma numRegex_ok: "6 \<le> minLen (atoms numRegex)" "\<not> accepts (ignoreCase numRegex) (atoms numRegex) CHR ''$''"
  by (simp_all add: numRegex_def minLen_def accepts_def digitRanges_def
      classMatches_def litMatches_def inRanges_def)

lemma alphaNumRegex_ok: "6 \<le> minLen (atoms alphaNumRegex)" "\<not> accepts (ignoreCase alphaNumRegex) (atoms alphaNumRegex) CHR ''$''"
  by (simp_all add: alphaNumRegex_def minLen_def accepts_def alnumRanges_def
      classMatches_def litMatches_def inRanges_def)

lemma extractLiterals_total:
  "\<exists>ls. extractLiterals text = Some ls \<and> list_all subMatchOk ls"
proof -
  obtain us where us: "execAll uuidRegex text 0 = Some us" "list_all subMatchOk us"
    using execAll_subMatchOk [OF uuidRegex_ok] by blast
  obtain js where js: "execAll jwtRegex text 0 = Some js" "list_all subMatchOk js"
    using execAll_subMatchOk [OF jwtRegex_ok] by blast
  obtain ns where ns: "execAll numRegex text 0 = Some ns" "list_all subMatchOk ns"
    using execAll_subMatchOk [OF numRegex_ok] by blast
  obtain as where as: "execAll alphaNumRegex text 0 = Some as" "list_all subMatchOk as"
    using execAll_subMatchOk [OF alphaNumRegex_ok] by blast
  show ?thesis
    using us js ns as by (simp add: extractLiterals_def)
qed

section \<open>The anchored tests and the shapes\<close>

lemma classMatches_digit: "classMatches False digitRanges c = isDigit c"
  by (simp add: classMatches_def digitRanges_def inRanges_def isDigit_def)

lemma classMatches_alnum: "classMatches False alnumRanges c = isAlphaNumeric c"
  by (auto simp add: classMatches_def alnumRanges_def inRanges_def isAlphaNumeric_def isDigit_def)

lemma classMatches_hex: "classMatches True hexRanges c = isHexDigit c"
proof -
  obtain n :: nat where n: "n = of_char c" by simp
  have lt: "n < 256" unfolding n by (rule nat_of_char_less_256)
  have up: "(of_char (toUpperAscii c) :: nat) = (if 97 \<le> n \<and> n \<le> 122 then n - 32 else n)"
    using lt by (auto simp add: toUpperAscii_def less_eq_char_def n of_char_of)
  have lo: "(of_char (toLowerAscii c) :: nat) = (if 65 \<le> n \<and> n \<le> 90 then n + 32 else n)"
    using lt by (auto simp add: toLowerAscii_def less_eq_char_def n of_char_of)
  show ?thesis
    unfolding classMatches_def hexRanges_def inRanges_def isHexDigit_def isDigit_def
    using up lo by (auto simp add: less_eq_char_def n [symmetric] split: if_splits)
qed

lemma length_jsSplit: "length (jsSplit sep s) = Suc (count_list s sep)"
  by (induction s) (auto split: list.splits)

lemma looksLikeJWT_iff: "looksLikeJWT v \<longleftrightarrow> startsWith v ''eyJ'' \<and> count_list v CHR ''.'' = 2"
  by (auto simp add: looksLikeJWT_def length_jsSplit)

lemma firstSome_exists: "firstSome f xs \<noteq> None \<longleftrightarrow> (\<exists>x \<in> set xs. f x \<noteq> None)"
  by (induction xs) (auto split: option.splits)

lemma regexTest_Bol:
  "regexTest \<lparr>ignoreCase = ic, atoms = Bol # r\<rparr> v \<longleftrightarrow> matchAt ic r v 0 \<noteq> None"
proof -
  have "(\<exists>j \<in> set [0..<Suc (length v)]. map_option (Pair j) (matchAt ic (Bol # r) v j) \<noteq> None)
        \<longleftrightarrow> matchAt ic r v 0 \<noteq> None"
    by (auto split: if_splits)
  then show ?thesis
    by (simp only: regexTest_def regexExec_def firstSome_exists regexp.simps)
qed

lemma takeWhile_length_ge_iff:
  "n \<le> length (takeWhile P (drop i s)) \<longleftrightarrow> (\<forall>p. i \<le> p \<and> p < i + n \<longrightarrow> p < length s \<and> P (s ! p))"
proof
  assume "n \<le> length (takeWhile P (drop i s))"
  then show "\<forall>p. i \<le> p \<and> p < i + n \<longrightarrow> p < length s \<and> P (s ! p)"
    using takeWhile_prefix_nth [of n P i s] by blast
next
  assume r: "\<forall>p. i \<le> p \<and> p < i + n \<longrightarrow> p < length s \<and> P (s ! p)"
  show "n \<le> length (takeWhile P (drop i s))"
  proof (rule ccontr)
    let ?m = "length (takeWhile P (drop i s))"
    assume "\<not> n \<le> ?m"
    then have mn: "?m < n" by simp
    with r have a: "i + ?m < length s" "P (s ! (i + ?m))"
      by simp_all
    then have "?m < length (drop i s)" by simp
    then have "\<not> P (drop i s ! ?m)"
      by (rule nth_length_takeWhile)
    with a show False by simp
  qed
qed

lemma matchAt_Rep_exact:
  "matchAt ic (Rep cls n (Some n) # r) s i =
     (if n \<le> length (takeWhile (classMatches ic cls) (drop i s)) then matchAt ic r s (i + n) else None)"
proof (cases "n \<le> length (takeWhile (classMatches ic cls) (drop i s))")
  case True
  then have "min n (length (takeWhile (classMatches ic cls) (drop i s))) = n"
    by simp
  with True show ?thesis
    by (simp add: Let_def split: option.splits)
next
  case False
  then have "min n (length (takeWhile (classMatches ic cls) (drop i s))) < n"
    by simp
  with False show ?thesis
    by (simp add: Let_def)
qed

lemma matchAt_Rep_Eol:
  "matchAt ic [Rep cls lo (Some hi), Eol] v 0 \<noteq> None \<longleftrightarrow>
     lo \<le> length v \<and> length v \<le> hi \<and> list_all (classMatches ic cls) v"
proof -
  let ?P = "classMatches ic cls"
  let ?n = "min hi (length (takeWhile ?P v))"
  have "length v \<le> length (takeWhile ?P v) \<longleftrightarrow> takeWhile ?P v = v"
  proof
    assume "length v \<le> length (takeWhile ?P v)"
    then have "take (length (takeWhile ?P v)) v = v"
      by simp
    then show "takeWhile ?P v = v"
      by (simp only: takeWhile_eq_take [symmetric])
  next
    assume e: "takeWhile ?P v = v"
    show "length v \<le> length (takeWhile ?P v)"
      unfolding e by (rule order_refl)
  qed
  then have full: "length v \<le> length (takeWhile ?P v) \<longleftrightarrow> list_all ?P v"
    by (simp only: takeWhile_eq_all_conv list_all_iff)
  have "matchAt ic [Rep cls lo (Some hi), Eol] v 0 \<noteq> None \<longleftrightarrow>
          (\<exists>k \<in> set (rev [lo..<Suc ?n]). matchAt ic [Eol] v k \<noteq> None)"
    by (simp only: matchAt.simps Let_def option.case firstSome_exists drop_0 add_0)
  also have "\<dots> \<longleftrightarrow> lo \<le> length v \<and> length v \<le> ?n"
    by (auto split: if_splits)
  also have "\<dots> \<longleftrightarrow> lo \<le> length v \<and> length v \<le> hi \<and> list_all ?P v"
    using full by auto
  finally show ?thesis .
qed

lemma looksLikeNumericId_iff: "looksLikeNumericId v \<longleftrightarrow> numericShape v"
  unfolding looksLikeNumericId_def numericShape_def regexTest_Bol matchAt_Rep_Eol
  by (simp only: classMatches_digit [abs_def])

lemma looksLikeAlphaNumeric_iff: "looksLikeAlphaNumeric v \<longleftrightarrow> alphaNumericShape v"
  unfolding looksLikeAlphaNumeric_def alphaNumericShape_def regexTest_Bol matchAt_Rep_Eol
  by (simp only: classMatches_alnum [abs_def])

lemma litMatches_dash: "litMatches True CHR ''-'' c \<longleftrightarrow> c = CHR ''-''"
proof -
  have "c = CHR ''-''" if "toUpperAscii c = CHR ''-''"
  proof (cases "CHR ''a'' \<le> c \<and> c \<le> CHR ''z''")
    case True
    then have "97 \<le> (of_char c :: nat)" "(of_char c :: nat) \<le> 122"
      by (simp_all add: less_eq_char_def)
    moreover from True that have "(of_char (char_of (of_char c - (32::nat))) :: nat) = 45"
      by (simp add: toUpperAscii_def)
    ultimately show ?thesis
      by (simp add: of_char_of)
  next
    case False
    with that show ?thesis by (simp add: toUpperAscii_def)
  qed
  then show ?thesis
    by (auto simp add: litMatches_def toUpperAscii_def)
qed

lemma matchAt_Rep_exact_None:
  "matchAt ic (Rep cls n (Some n) # r) s i = None \<longleftrightarrow>
     \<not> (\<forall>p. i \<le> p \<and> p < i + n \<longrightarrow> p < length s \<and> classMatches ic cls (s ! p))
     \<or> matchAt ic r s (i + n) = None"
  by (simp only: matchAt_Rep_exact takeWhile_length_ge_iff split: if_splits) simp

lemma matchAt_Lit_None:
  "matchAt ic (Lit c # r) s i = None \<longleftrightarrow>
     \<not> (i < length s \<and> litMatches ic c (s ! i)) \<or> matchAt ic r s (Suc i) = None"
  by simp

lemma matchAt_Eol_None: "matchAt ic [Eol] s i = None \<longleftrightarrow> i \<noteq> length s"
  by simp

lemma looksLikeUUID_iff: "looksLikeUUID v \<longleftrightarrow> uuidShape v"
proof -
  let ?H = "\<lambda>p. isHexDigit (v ! p)"
  let ?D = "\<lambda>p. v ! p = CHR ''-''"
  have m: "looksLikeUUID v \<longleftrightarrow>
      (\<forall>p. p < 8 \<longrightarrow> p < length v \<and> ?H p) \<and> (8 < length v \<and> ?D 8) \<and>
      (\<forall>p. 9 \<le> p \<and> p < 13 \<longrightarrow> p < length v \<and> ?H p) \<and> (13 < length v \<and> ?D 13) \<and>
      (\<forall>p. 14 \<le> p \<and> p < 18 \<longrightarrow> p < length v \<and> ?H p) \<and> (18 < length v \<and> ?D 18) \<and>
      (\<forall>p. 19 \<le> p \<and> p < 23 \<longrightarrow> p < length v \<and> ?H p) \<and> (23 < length v \<and> ?D 23) \<and>
      (\<forall>p. 24 \<le> p \<and> p < 36 \<longrightarrow> p < length v \<and> ?H p) \<and> length v = 36"
    unfolding looksLikeUUID_def uuidBody_def append.simps regexTest_Bol
    by (simp add: matchAt_Rep_exact_None matchAt_Lit_None matchAt_Eol_None
        classMatches_hex litMatches_dash del: matchAt.simps not_None_eq) auto
  have hex: "?H i" if "looksLikeUUID v" "i < 36" "i \<notin> set [8, 13, 18, 23]" for i
  proof -
    from that(3) have "i \<noteq> 8" "i \<noteq> 13" "i \<noteq> 18" "i \<noteq> 23"
      by simp_all
    with that(2) consider "i < 8" | "9 \<le> i \<and> i < 13" | "14 \<le> i \<and> i < 18"
      | "19 \<le> i \<and> i < 23" | "24 \<le> i \<and> i < 36"
      by arith
    then show ?thesis
      using that(1) [unfolded m] by cases blast+
  qed
  have dash: "?D i" if "looksLikeUUID v" "i \<in> set [8, 13, 18, 23]" for i
    using that [unfolded m] by auto
  have fwd: "uuidShape v" if "looksLikeUUID v"
    unfolding uuidShape_def list_all_iff
    using hex [OF that] dash [OF that] that [unfolded m] by auto
  have bwd: "looksLikeUUID v" if "uuidShape v"
  proof -
    from that have len: "length v = 36"
      and all: "\<And>i. i < 36 \<Longrightarrow> (if i \<in> set [8, 13, 18, 23] then ?D i else ?H i)"
      by (simp_all add: uuidShape_def list_all_iff)
    have h: "?H i" if "i < 36" "i \<noteq> 8" "i \<noteq> 13" "i \<noteq> 18" "i \<noteq> 23" for i
      using all [OF that(1)] that by simp
    have d: "?D 8" "?D 13" "?D 18" "?D 23"
      using all [of 8] all [of 13] all [of 18] all [of 23] by simp_all
    show ?thesis
      unfolding m using len d h by auto
  qed
  show ?thesis
    using fwd bwd by blast
qed

section \<open>Properties of the value index\<close>

lemma set_setAdd: "set (setAdd vs v) = insert v (set vs)"
  by (auto simp: setAdd_def)

lemma distinct_setAdd: "distinct vs \<Longrightarrow> distinct (setAdd vs v)"
  by (simp add: setAdd_def)

lemma distinct_setAddAll: "distinct vs \<Longrightarrow> distinct (setAddAll vs xs)"
  unfolding setAddAll_def by (induction xs arbitrary: vs) (simp_all add: distinct_setAdd)

lemma set_setAddAll: "set (setAddAll vs xs) = set vs \<union> set xs"
  unfolding setAddAll_def by (induction xs arbitrary: vs) (auto simp: set_setAdd)

lemma setAddAll_append: "setAddAll vs (xs @ ys) = setAddAll (setAddAll vs xs) ys"
  by (simp add: setAddAll_def)

lemma firstSeenFrom_cong: "set a = set b \<Longrightarrow> firstSeenFrom a xs = firstSeenFrom b xs"
proof (induction xs arbitrary: a b)
  case Nil
  show ?case by simp
next
  case (Cons x xs)
  from Cons.prems have "set (x # a) = set (x # b)"
    by simp
  then have "firstSeenFrom (x # a) xs = firstSeenFrom (x # b) xs"
    by (rule Cons.IH)
  moreover have "firstSeenFrom a xs = firstSeenFrom b xs"
    using Cons.prems by (rule Cons.IH)
  ultimately show ?case
    using Cons.prems by simp
qed

lemma setAddAll_firstSeenFrom: "setAddAll vs xs = vs @ firstSeenFrom vs xs"
proof (induction xs arbitrary: vs)
  case Nil
  show ?case by (simp add: setAddAll_def)
next
  case (Cons x xs)
  have step: "setAddAll vs (x # xs) = setAddAll (setAdd vs x) xs"
    by (simp add: setAddAll_def)
  show ?case
  proof (cases "x \<in> set vs")
    case True
    then show ?thesis using Cons [of vs] by (simp add: step setAdd_def)
  next
    case False
    have "firstSeenFrom (vs @ [x]) xs = firstSeenFrom (x # vs) xs"
      by (rule firstSeenFrom_cong) auto
    with False show ?thesis using Cons [of "vs @ [x]"] by (simp add: step setAdd_def)
  qed
qed

lemma map_of_map_entries:
  "map_of (map (\<lambda>(k, x). (k, f k x)) xs) w = map_option (f w) (map_of xs w)"
  by (induction xs) auto

lemma keys_indexAdd: "map fst (indexAdd index v occ) = setAdd (map fst index) v"
proof -
  have "map fst (map (\<lambda>(k, occs). if k = v then (k, occs @ [occ]) else (k, occs)) xs) = map fst xs"
    for xs :: valueIndex
    by (induction xs) auto
  then show ?thesis
    by (auto simp add: indexAdd_def setAdd_def Let_def map_of_eq_None_iff)
qed

lemma occsOf_indexAdd:
  "occsOf (indexAdd index v occ) w = (if w = v then occsOf index v @ [occ] else occsOf index w)"
proof -
  have eq: "(\<lambda>(k, occs). if k = v then (k, occs @ [occ]) else (k, occs))
      = (\<lambda>(k, occs). (k, (\<lambda>k occs. if k = v then occs @ [occ] else occs) k occs))"
    by auto
  show ?thesis
    unfolding occsOf_def indexAdd_def Let_def eq map_of_map_entries
    by (auto simp add: map_add_def split: option.splits)
qed

lemma keys_fold_indexAdd:
  "map fst (fold (\<lambda>v idx. if isIgnorable v then idx else indexAdd idx v occ) vs index) =
     setAddAll (map fst index) (filter (\<lambda>v. \<not> isIgnorable v) vs)"
  unfolding setAddAll_def
  by (induction vs arbitrary: index) (simp_all add: keys_indexAdd)

lemma keys_indexSampler:
  "map fst (indexSampler s index) =
     setAddAll (map fst index) (filter (\<lambda>v. \<not> isIgnorable v) (requestValues s))"
  unfolding indexSampler_def by (rule keys_fold_indexAdd)

lemma occsOf_fold_indexAdd:
  "occsOf (fold (\<lambda>v idx. if isIgnorable v then idx else indexAdd idx v occ) vs index) w =
     occsOf index w @ replicate (count_list (filter (\<lambda>v. \<not> isIgnorable v) vs) w) occ"
  by (induction vs arbitrary: index) (simp_all add: occsOf_indexAdd replicate_append_same)

lemma occsOf_indexSampler:
  "occsOf (indexSampler s index) w =
     occsOf index w @ replicate (count_list (filter (\<lambda>v. \<not> isIgnorable v) (requestValues s)) w) (occOf s)"
  unfolding indexSampler_def occOf_def by (rule occsOf_fold_indexAdd)

lemma keys_fold_indexSampler:
  "map fst (fold indexSampler samplers index) =
     setAddAll (map fst index)
       (filter (\<lambda>v. \<not> isIgnorable v) (concat (map requestValues samplers)))"
  by (induction samplers arbitrary: index)
    (simp_all add: keys_indexSampler setAddAll_append, simp add: setAddAll_def)

lemma occsOf_fold_indexSampler:
  "occsOf (fold indexSampler samplers index) w =
     occsOf index w @
     concat (map (\<lambda>s. replicate (count_list (filter (\<lambda>v. \<not> isIgnorable v) (requestValues s)) w) (occOf s))
       samplers)"
  by (induction samplers arbitrary: index) (simp_all add: occsOf_indexSampler)

lemma keys_buildValueIndex:
  "map fst (buildValueIndex samplers) =
     firstSeen (filter (\<lambda>v. \<not> isIgnorable v) (concat (map requestValues samplers)))"
  by (simp add: buildValueIndex_def keys_fold_indexSampler setAddAll_firstSeenFrom firstSeen_def)

lemma distinct_keys_buildValueIndex: "distinct (map fst (buildValueIndex samplers))"
  by (simp add: buildValueIndex_def keys_fold_indexSampler distinct_setAddAll)

lemma occsOf_buildValueIndex:
  "occsOf (buildValueIndex samplers) w =
     concat (map (\<lambda>s. replicate (count_list (filter (\<lambda>v. \<not> isIgnorable v) (requestValues s)) w) (occOf s))
       samplers)"
proof -
  have "occsOf [] w = []"
    by (simp add: occsOf_def)
  then show ?thesis
    by (simp only: buildValueIndex_def occsOf_fold_indexSampler append_Nil)
qed

section \<open>Properties of the traversal\<close>

lemma addPathValues_distinct:
  "addPathValues qv vs fullPath = Inr vs' \<Longrightarrow> distinct vs \<Longrightarrow> distinct vs'"
  by (auto simp add: addPathValues_def Let_def distinct_setAddAll split: option.splits if_splits)

lemma addArgValues_distinct:
  "addArgValues vs valText = Inr vs' \<Longrightarrow> distinct vs \<Longrightarrow> distinct vs'"
  by (auto simp add: addArgValues_def Let_def distinct_setAddAll distinct_setAdd
      split: option.splits if_splits)

lemma addArgs_distinct:
  "addArgs args vs = Inr vs' \<Longrightarrow> distinct vs \<Longrightarrow> distinct vs'"
proof (induction args vs rule: addArgs.induct)
  case (1 vs)
  then show ?case by simp
next
  case (2 arg rest vs)
  from "2.prems"(1) obtain valProp where f: "findStringProp arg ''Argument.value'' = Inr valProp"
    by (auto split: sum.splits)
  from "2.prems"(1) f obtain t where t: "trimmedText valProp = Inr t"
    by (auto split: sum.splits)
  show ?case
  proof (cases t)
    case None
    with "2.prems" f t "2.IH"(1) [OF f t None] show ?thesis
      by simp
  next
    case (Some valText)
    with "2.prems"(1) f t obtain vs1 where
      a: "addArgValues vs valText = Inr vs1" and r: "addArgs rest vs1 = Inr vs'"
      by (auto split: sum.splits)
    from addArgValues_distinct [OF a "2.prems"(2)] have "distinct vs1" .
    with "2.IH"(2) [OF f t Some a r] show ?thesis .
  qed
qed

lemma extractRequestValues_distinct:
  "extractRequestValues qv s = Inr vals \<Longrightarrow> distinct vals"
  unfolding extractRequestValues_def
  by (auto split: sum.splits option.splits
      dest!: addPathValues_distinct dest: addArgs_distinct)

lemma pushSamplers_numbered:
  "pushSamplers qv ss st = Inr st' \<Longrightarrow> numbered st \<Longrightarrow> numbered st'"
proof (induction qv ss st rule: pushSamplers.induct)
  case (1 qv st)
  then show ?case by simp
next
  case (2 qv s ss result idx)
  from "2.prems"(1) obtain vals where
    v: "extractRequestValues qv s = Inr vals" and
    r: "pushSamplers qv ss (result @ [\<lparr>order = Suc idx, name = nameOrDefault s (Suc idx), requestValues = vals\<rparr>], Suc idx) = Inr st'"
    by (auto split: sum.splits)
  have "numbered (result @ [\<lparr>order = Suc idx, name = nameOrDefault s (Suc idx), requestValues = vals\<rparr>], Suc idx)"
    using "2.prems"(2) extractRequestValues_distinct [OF v] by (auto simp add: numbered_def)
  then show ?case
    by (rule "2.IH" [OF v r])
qed

lemma collect_numbered:
  "collectHTTPSamplers qv node st = Inr st' \<Longrightarrow> numbered st \<Longrightarrow> numbered st'"
  "collectElements qv xs st = Inr st' \<Longrightarrow> numbered st \<Longrightarrow> numbered st'"
  "collectEntries qv kvs st = Inr st' \<Longrightarrow> numbered st \<Longrightarrow> numbered st'"
proof (induction qv node st and qv xs st and qv kvs st arbitrary: st' and st' and st'
    rule: collectHTTPSamplers_collectElements_collectEntries.induct)
  case (1 qv t st)
  then show ?case by simp
next
  case (2 qv xs st)
  then show ?case by simp
next
  case (3 qv kvs st)
  from "3.prems"(1) obtain st1 where
    p: "pushSamplers qv (proxiesOf (JObject kvs)) st = Inr st1" and c: "collectEntries qv kvs st1 = Inr st'"
    by (auto split: sum.splits)
  show ?case
    by (rule "3.IH" [OF p c pushSamplers_numbered [OF p "3.prems"(2)]])
next
  case (4 qv st)
  then show ?case by simp
next
  case (5 qv x xs st)
  from "5.prems"(1) obtain st1 where
    p: "collectHTTPSamplers qv x st = Inr st1" and c: "collectElements qv xs st1 = Inr st'"
    by (auto split: sum.splits)
  show ?case
    by (rule "5.IH"(2) [OF p c "5.IH"(1) [OF p "5.prems"(2)]])
next
  case (6 qv st)
  then show ?case by simp
next
  case (7 qv k v kvs st)
  from "7.prems"(1) obtain st1 where
    p: "collectHTTPSamplers qv v st = Inr st1" and c: "collectEntries qv kvs st1 = Inr st'"
    by (auto split: sum.splits)
  show ?case
    by (rule "7.IH"(2) [OF p c "7.IH"(1) [OF p "7.prems"(2)]])
qed

lemma collected_samplers:
  assumes "collectHTTPSamplers qv doc ([], 0) = Inr (samplers, k)"
  shows "map order samplers = [1..<Suc k]" and "\<forall>s \<in> set samplers. distinct (requestValues s)"
proof -
  have "numbered ([], 0)"
    by (simp add: numbered_def)
  from collect_numbered(1) [OF assms this] show "map order samplers = [1..<Suc k]"
    and "\<forall>s \<in> set samplers. distinct (requestValues s)"
    by (simp_all add: numbered_def)
qed

lemma pushSamplers_append:
  "pushSamplers qv (as @ bs) st =
     (case pushSamplers qv as st of Inl e \<Rightarrow> Inl e | Inr st' \<Rightarrow> pushSamplers qv bs st')"
proof (induction qv as st rule: pushSamplers.induct)
  case (1 qv st)
  show ?case by simp
next
  case (2 qv s ss result idx)
  then show ?case by (simp split: sum.splits)
qed

lemma collect_samplerNodes:
  "collectHTTPSamplers qv node st = pushSamplers qv (samplerNodes node) st"
  "collectElements qv xs st = pushSamplers qv (samplerNodesElements xs) st"
  "collectEntries qv kvs st = pushSamplers qv (samplerNodesEntries kvs) st"
proof (induction qv node st and qv xs st and qv kvs st
    rule: collectHTTPSamplers_collectElements_collectEntries.induct)
  case (1 qv t st)
  show ?case by simp
next
  case (2 qv xs st)
  then show ?case by simp
next
  case (3 qv kvs st)
  then show ?case
    by (simp add: pushSamplers_append split: sum.splits)
next
  case (4 qv st)
  show ?case by simp
next
  case (5 qv x xs st)
  then show ?case
    by (simp add: pushSamplers_append split: sum.splits)
next
  case (6 qv st)
  show ?case by simp
next
  case (7 qv k v kvs st)
  then show ?case
    by (simp add: pushSamplers_append split: sum.splits)
qed

section \<open>From the index to the report\<close>

lemma isIgnorable_iff:
  "isIgnorable v \<longleftrightarrow>
     v = [] \<or> startsWith v ''${'' \<or> v = ''true'' \<or> v = ''false'' \<or> length v < 4"
  by (simp add: isIgnorable_def)

lemma set_firstSeen: "set (firstSeen xs) = set (xs :: string list)"
  using set_setAddAll [of "[]" xs] by (simp add: setAddAll_firstSeenFrom firstSeen_def)

lemma keys_not_ignorable:
  "v \<in> set (map fst (buildValueIndex samplers)) \<Longrightarrow> \<not> isIgnorable v"
  by (simp only: keys_buildValueIndex set_firstSeen) simp

lemma detectedValue_suggest: "detectedValue (suggest e) = fst e"
  by (cases e) (simp add: suggest_def Let_def)

lemma detectedValues: "map detectedValue (buildCorrelationSuggestions index) = map fst index"
  by (simp add: buildCorrelationSuggestions_def detectedValue_suggest)

lemma analyzeDocument_Inr:
  assumes "analyzeDocument qv file doc = Inr rep"
  obtains samplers k where "collectHTTPSamplers qv doc ([], 0) = Inr (samplers, k)"
    and "rep = \<lparr>jmxFile = file, samplersScanned = length samplers,
                 correlationCandidates = length (buildCorrelationSuggestions (buildValueIndex samplers)),
                 suggestions = buildCorrelationSuggestions (buildValueIndex samplers)\<rparr>"
  using assms unfolding analyzeDocument_def Let_def
  by (auto split: sum.splits prod.splits)

lemma count_list_distinct: "distinct xs \<Longrightarrow> count_list xs x = (if x \<in> set xs then 1 else 0)"
  by (induction xs) auto

lemma count_list_filter: "P x \<Longrightarrow> count_list (filter P xs) x = count_list xs x"
  by (induction xs) auto

lemma occs_of_key:
  assumes "\<forall>s \<in> set samplers. distinct (requestValues s)" and "\<not> isIgnorable v"
  shows "occsOf (buildValueIndex samplers) v =
           map occOf (filter (\<lambda>s. v \<in> set (requestValues s)) samplers)"
proof -
  have "concat (map (\<lambda>s. replicate (count_list (filter (\<lambda>v. \<not> isIgnorable v) (requestValues s)) v) (occOf s)) samplers)
      = map occOf (filter (\<lambda>s. v \<in> set (requestValues s)) samplers)"
    using assms(1)
  proof (induction samplers)
    case Nil
    show ?case by simp
  next
    case (Cons s samplers)
    have "count_list (filter (\<lambda>v. \<not> isIgnorable v) (requestValues s)) v
        = (if v \<in> set (requestValues s) then 1 else 0)"
      using Cons.prems assms(2) by (simp add: count_list_filter count_list_distinct)
    with Cons show ?case by simp
  qed
  then show ?thesis
    by (simp only: occsOf_buildValueIndex)
qed

lemma entry_occs:
  assumes "(v, occs) \<in> set (buildValueIndex samplers)"
  shows "occsOf (buildValueIndex samplers) v = occs"
  using assms distinct_keys_buildValueIndex [of samplers] by (simp add: occsOf_def)

lemma one_per_key:
  "distinct (map f xs) \<Longrightarrow> s \<in> set xs \<Longrightarrow>
     length (filter (\<lambda>x. f x = f s \<and> P x) xs) = (if P s then 1 else 0)"
proof (induction xs)
  case Nil
  then show ?case by simp
next
  case (Cons x xs)
  show ?case
  proof (cases "x = s")
    case True
    from Cons.prems(1) have "f x \<notin> f ` set xs"
      by simp
    then have "\<forall>y \<in> set xs. f y \<noteq> f x"
      by (metis imageI)
    then have "filter (\<lambda>y. f y = f s \<and> P y) xs = []"
      using True by (simp add: filter_empty_conv)
    with True show ?thesis by simp
  next
    case False
    with Cons.prems have "s \<in> set xs" "f x \<noteq> f s"
      by auto
    with Cons show ?thesis by simp
  qed
qed

section \<open>Values of sixteen digits\<close>

lemma sixteen_digits:
  assumes "length v = 16" and "list_all isDigit v"
  shows "\<not> isIgnorable v" and "classifyValue v = GENERIC_DYNAMIC_VALUE"
    and "calculateConfidence v occs = (if 3 \<le> length occs then HIGH else LOW)"
proof -
  from assms obtain c cs where v: "v = c # cs" and c: "isDigit c"
    by (cases v) auto
  from c have ne: "c \<noteq> CHR ''$''" "c \<noteq> CHR ''e''"
    by (auto simp add: isDigit_def)
  from v ne have sw: "\<not> startsWith v ''${''" "\<not> startsWith v ''eyJ''"
    by (simp_all add: startsWith_def)
  from assms(1) sw(1) show "\<not> isIgnorable v"
    by (auto simp add: isIgnorable_iff)
  have jwt: "\<not> looksLikeJWT v"
    using sw(2) by (simp add: looksLikeJWT_def)
  have uuid: "\<not> looksLikeUUID v"
    using assms(1) by (simp add: looksLikeUUID_iff uuidShape_def)
  have num: "\<not> looksLikeNumericId v"
    using assms(1) by (simp add: looksLikeNumericId_iff numericShape_def)
  have "list_all isAlphaNumeric v"
    using assms(2) by (simp add: list_all_iff isAlphaNumeric_def)
  then have alnum: "looksLikeAlphaNumeric v"
    using assms(1) by (simp add: looksLikeAlphaNumeric_iff alphaNumericShape_def)
  from jwt uuid num alnum show "classifyValue v = GENERIC_DYNAMIC_VALUE"
    by (simp add: classifyValue_def)
  from jwt uuid num show "calculateConfidence v occs = (if 3 \<le> length occs then HIGH else LOW)"
    by (simp add: calculateConfidence_def)
qed

lemma filter_key_distinct:
  "distinct (map fst xs) \<Longrightarrow> (k, x) \<in> set xs \<Longrightarrow> filter (\<lambda>e. fst e = k) xs = [(k, x)]"
proof (induction xs)
  case Nil
  then show ?case by simp
next
  case (Cons e xs)
  show ?case
  proof (cases "e = (k, x)")
    case True
    with Cons.prems(1) have "k \<notin> fst ` set xs"
      by simp
    then have "filter (\<lambda>e. fst e = k) xs = []"
      by (auto simp add: filter_empty_conv)
    with True show ?thesis by simp
  next
    case False
    with Cons.prems have in_xs: "(k, x) \<in> set xs"
      by simp
    from Cons.prems(1) have "fst e \<notin> fst ` set xs"
      by simp
    with in_xs have "fst e \<noteq> k"
      by (metis fst_conv image_eqI)
    with Cons.IH Cons.prems(1) in_xs show ?thesis by simp
  qed
qed

lemma suggestions_for_value:
  assumes "(v, occs) \<in> set (buildValueIndex samplers)"
  shows "filter (\<lambda>sg. detectedValue sg = v) (buildCorrelationSuggestions (buildValueIndex samplers))
           = [suggest (v, occs)]"
proof -
  have "filter (\<lambda>sg. detectedValue sg = v) (map suggest index)
      = map suggest (filter (\<lambda>e. fst e = v) index)" for index
    by (simp add: filter_map comp_def detectedValue_suggest)
  with filter_key_distinct [OF distinct_keys_buildValueIndex assms] show ?thesis
    by (simp add: buildCorrelationSuggestions_def)
qed

section \<open>A request of path \<open>/orders/123?status=true\<close>\<close>

lemma addPathValues_orders:
  assumes "qv ''status=true'' = [''true'']"
  shows "addPathValues qv [] ''/orders/123?status=true'' = Inr [''orders'', ''status'']"
proof -
  have q: "(case jsSplit CHR ''?'' ''/orders/123?status=true'' of _ # q # _ \<Rightarrow> q | _ \<Rightarrow> []) = ''status=true''"
    by code_simp
  have i: "isIgnorable ''true''"
    by code_simp
  have e: "extractLiterals ''/orders/123?status=true'' = Some [''orders'', ''status'']"
    by code_simp
  have s: "setAddAll [] [''orders'', ''status''] = [''orders'', ''status'']"
    by code_simp
  show ?thesis
    unfolding addPathValues_def q Let_def e assms using i s by (simp add: setAddAll_def)
qed

lemma extractRequestValues_orders:
  assumes "getProp s ''stringProp'' = Some (JArray ps)"
    and "List.find (hasName ''HTTPSampler.path'') ps = Some p"
    and "getProp p ''_'' = Some (JString t)"
    and "trim t = ''/orders/123?status=true''"
    and "argListOf s = []"
    and "qv ''status=true'' = [''true'']"
  shows "extractRequestValues qv s = Inr [''orders'', ''status'']"
proof -
  have f: "findStringProp s ''HTTPSampler.path'' = Inr (Some p)"
    using assms(1,2) by (simp add: findStringProp_def)
  from assms(4) have "t \<noteq> []"
    by (auto simp add: trim_def)
  with assms(3,4) have tt: "trimmedText (Some p) = Inr (Some ''/orders/123?status=true'')"
    by (simp add: trimmedText_def)
  show ?thesis
    unfolding extractRequestValues_def f
    using tt addPathValues_orders [of qv] assms(5,6) by simp
qed

lemma report_of_one_sampler:
  assumes "samplerNodes doc = [s]" and "extractRequestValues qv s = Inr vals"
  shows "analyzeDocument qv file doc =
     Inr (let sugg = buildCorrelationSuggestions
                 (buildValueIndex [\<lparr>order = 1, name = nameOrDefault s 1, requestValues = vals\<rparr>])
          in \<lparr>jmxFile = file, samplersScanned = 1, correlationCandidates = length sugg,
              suggestions = sugg\<rparr>)"
  unfolding analyzeDocument_def collect_samplerNodes(1) assms(1)
  using assms(2) by (simp add: Let_def)

lemma suggestions_orders:
  "buildCorrelationSuggestions
     (buildValueIndex [\<lparr>order = 1, name = nm, requestValues = [''orders'', ''status'']\<rparr>])
   = [\<lparr>detectedValue = ''orders'', valueType = GENERIC_DYNAMIC_VALUE, confidence = LOW,
       usedInSamplers = [nm],
       recommendation =
         \<lparr>extractor = ''Regex / JSON Extractor'', variableName = ''dynamic_var'',
          regex = None, jsonPath = None,
          usage = ''Extract from previous response before reuse''\<rparr>\<rparr>,
      \<lparr>detectedValue = ''status'', valueType = GENERIC_DYNAMIC_VALUE, confidence = LOW,
       usedInSamplers = [nm],
       recommendation =
         \<lparr>extractor = ''Regex / JSON Extractor'', variableName = ''dynamic_var'',
          regex = None, jsonPath = None,
          usage = ''Extract from previous response before reuse''\<rparr>\<rparr>]"
  by code_simp

lemma ordersSingleDoc_report:
  "analyzeDocument qv file ordersSingleDoc
     = Inr \<lparr>jmxFile = file, samplersScanned = 1, correlationCandidates = 0, suggestions = []\<rparr>"
  by code_simp

section \<open>Where the engine returns\<close>

lemma wellShapedElements_mem: "wellShapedElements xs \<Longrightarrow> x \<in> set xs \<Longrightarrow> wellShaped x"
  by (induction xs) auto

lemma wellShapedElements_iff: "wellShapedElements xs \<longleftrightarrow> (\<forall>x \<in> set xs. wellShaped x)"
  by (induction xs) auto

lemma wellShapedEntries_lookup:
  "wellShapedEntries kvs \<Longrightarrow> map_of kvs k = Some v \<Longrightarrow>
     wellShaped v \<and> (k = ''stringProp'' \<longrightarrow> noFind v) \<and> (k = ''_'' \<longrightarrow> isString v)"
  by (induction kvs) (auto split: if_splits)

lemma wellShaped_getProp:
  "wellShaped x \<Longrightarrow> getProp x k = Some v \<Longrightarrow>
     wellShaped v \<and> (k = ''stringProp'' \<longrightarrow> noFind v) \<and> (k = ''_'' \<longrightarrow> isString v)"
  by (cases x) (auto simp add: getProp_def dest: wellShapedEntries_lookup)

lemma findStringProp_wellShaped:
  assumes "wellShaped x"
  shows "\<exists>p. findStringProp x n = Inr p \<and> (\<forall>q. p = Some q \<longrightarrow> wellShaped q)"
proof (cases "getProp x ''stringProp''")
  case None
  then show ?thesis by (simp add: findStringProp_def)
next
  case (Some sp)
  from wellShaped_getProp [OF assms Some] have sp: "wellShaped sp" "noFind sp"
    by simp_all
  show ?thesis
  proof (cases sp)
    case (JString t)
    with Some show ?thesis by (simp add: findStringProp_def)
  next
    case (JArray ps)
    have "wellShaped q" if "List.find (hasName n) ps = Some q" for q
    proof -
      from that have "q \<in> set ps"
        by (auto simp add: find_Some_iff)
      with sp(1) JArray show ?thesis
        by (simp add: wellShapedElements_iff)
    qed
    with Some JArray show ?thesis by (simp add: findStringProp_def)
  next
    case (JObject kvs)
    with sp have nf: "map_of kvs ''find'' = None" and pe: "wellShapedEntries kvs"
      by (simp_all add: noFind_def)
    have "wellShaped q" if "map_of kvs n = Some q" for q
      using wellShapedEntries_lookup [OF pe that] by simp
    with Some JObject nf show ?thesis by (simp add: findStringProp_def)
  qed
qed

lemma trimmedText_wellShaped:
  assumes "\<forall>q. p = Some q \<longrightarrow> wellShaped q"
  shows "\<exists>t. trimmedText p = Inr t"
proof (cases "Option.bind p (\<lambda>v. getProp v ''_'')")
  case None
  then show ?thesis by (simp add: trimmedText_def)
next
  case (Some u)
  then obtain q where q: "p = Some q" "getProp q ''_'' = Some u"
    by (cases p) auto
  with assms have "wellShaped q" by simp
  from wellShaped_getProp [OF this q(2)] have "isString u" by simp
  then obtain t where "u = JString t"
    by (cases u) (simp_all add: isString_def)
  with Some show ?thesis by (simp add: trimmedText_def)
qed

lemma addPathValues_total: "\<exists>vs'. addPathValues qv vs fullPath = Inr vs'"
  using extractLiterals_total [of fullPath] by (auto simp add: addPathValues_def Let_def)

lemma addArgValues_total: "\<exists>vs'. addArgValues vs valText = Inr vs'"
  using extractLiterals_total [of valText] by (auto simp add: addArgValues_def Let_def)

lemma addArgs_total: "\<forall>a \<in> set args. wellShaped a \<Longrightarrow> \<exists>vs'. addArgs args vs = Inr vs'"
proof (induction args arbitrary: vs)
  case Nil
  show ?case by simp
next
  case (Cons arg rest)
  from Cons.prems have "wellShaped arg" by simp
  from findStringProp_wellShaped [OF this, of "''Argument.value''"] obtain p where
    p: "findStringProp arg ''Argument.value'' = Inr p" "\<forall>q. p = Some q \<longrightarrow> wellShaped q"
    by blast
  from trimmedText_wellShaped [OF p(2)] obtain t where t: "trimmedText p = Inr t"
    by blast
  from Cons.prems have rest: "\<forall>a \<in> set rest. wellShaped a" by simp
  show ?case
  proof (cases t)
    case None
    with p t Cons.IH [OF rest, of vs] show ?thesis by simp
  next
    case (Some valText)
    from addArgValues_total [of vs valText] obtain vs1 where "addArgValues vs valText = Inr vs1"
      by blast
    with Some p t Cons.IH [OF rest, of vs1] show ?thesis by simp
  qed
qed

lemma listOf_wellShaped:
  assumes "\<And>v. x = Some v \<Longrightarrow> wellShaped v"
  shows "\<forall>a \<in> set (if truthy x then (case x of Some (JArray xs) \<Rightarrow> xs | Some v \<Rightarrow> [v] | None \<Rightarrow> [])
                       else []). wellShaped a"
proof (cases x)
  case None
  show ?thesis
    unfolding None by (simp only: option.case) simp
next
  case (Some v)
  with assms have v: "wellShaped v" by simp
  show ?thesis
  proof (cases v)
    case (JString t)
    show ?thesis
      unfolding Some JString by (simp only: option.case jsval.case) simp
  next
    case (JArray xs)
    with v have "\<forall>a \<in> set xs. wellShaped a"
      by (simp add: wellShapedElements_iff)
    then show ?thesis
      unfolding Some JArray by (simp only: option.case jsval.case) simp
  next
    case (JObject kvs)
    with v have "wellShaped (JObject kvs)"
      by simp
    then show ?thesis
      unfolding Some JObject by (simp only: option.case jsval.case) simp
  qed
qed

lemma argListOf_wellShaped:
  assumes "wellShaped s"
  shows "\<forall>a \<in> set (argListOf s). wellShaped a"
proof -
  have "wellShaped v" if "Option.bind (Option.bind (getProp s ''elementProp'')
                   (\<lambda>e. getProp e ''collectionProp'')) (\<lambda>c. getProp c ''elementProp'') = Some v" for v
  proof -
    from that obtain e c where "getProp s ''elementProp'' = Some e"
      "getProp e ''collectionProp'' = Some c" "getProp c ''elementProp'' = Some v"
      by (auto simp add: bind_eq_Some_conv)
    with assms show ?thesis
      using wellShaped_getProp by blast
  qed
  then show ?thesis
    unfolding argListOf_def Let_def by (rule listOf_wellShaped)
qed

lemma extractRequestValues_total: "wellShaped s \<Longrightarrow> \<exists>vals. extractRequestValues qv s = Inr vals"
proof -
  assume s: "wellShaped s"
  from findStringProp_wellShaped [OF s, of "''HTTPSampler.path''"] obtain p where
    p: "findStringProp s ''HTTPSampler.path'' = Inr p" "\<forall>q. p = Some q \<longrightarrow> wellShaped q"
    by blast
  from trimmedText_wellShaped [OF p(2)] obtain t where t: "trimmedText p = Inr t"
    by blast
  note args = addArgs_total [OF argListOf_wellShaped [OF s]]
  show ?thesis
  proof (cases t)
    case None
    with p t args [of "[]"] show ?thesis by (simp add: extractRequestValues_def)
  next
    case (Some fullPath)
    from addPathValues_total [of qv "[]" fullPath] obtain vs where "addPathValues qv [] fullPath = Inr vs"
      by blast
    with Some p t args [of vs] show ?thesis by (simp add: extractRequestValues_def)
  qed
qed

lemma pushSamplers_total: "\<forall>s \<in> set ss. wellShaped s \<Longrightarrow> \<exists>st'. pushSamplers qv ss st = Inr st'"
proof (induction qv ss st rule: pushSamplers.induct)
  case (1 qv st)
  show ?case by simp
next
  case (2 qv s ss result idx)
  from "2.prems" extractRequestValues_total [of s] obtain vals where v: "extractRequestValues qv s = Inr vals"
    by auto
  from "2.IH" [OF v] "2.prems" v show ?case
    by simp
qed

lemma proxiesOf_wellShaped:
  assumes "wellShaped node"
  shows "\<forall>s \<in> set (proxiesOf node). wellShaped s"
proof -
  have "wellShaped v" if "getProp node ''HTTPSamplerProxy'' = Some v" for v
    using wellShaped_getProp [OF assms that] by simp
  then show ?thesis
    unfolding proxiesOf_def Let_def by (rule listOf_wellShaped)
qed

lemma collect_total:
  "wellShaped node \<Longrightarrow> \<exists>st'. collectHTTPSamplers qv node st = Inr st'"
  "wellShapedElements xs \<Longrightarrow> \<exists>st'. collectElements qv xs st = Inr st'"
  "wellShapedEntries kvs \<Longrightarrow> \<exists>st'. collectEntries qv kvs st = Inr st'"
proof (induction qv node st and qv xs st and qv kvs st
    rule: collectHTTPSamplers_collectElements_collectEntries.induct)
  case (1 qv t st)
  show ?case by simp
next
  case (2 qv xs st)
  then show ?case by simp
next
  case (3 qv kvs st)
  from pushSamplers_total [OF proxiesOf_wellShaped [OF "3.prems"], of qv st] obtain st1 where
    p: "pushSamplers qv (proxiesOf (JObject kvs)) st = Inr st1"
    by blast
  from "3.IH" [OF p] "3.prems" p show ?case
    by simp
next
  case (4 qv st)
  show ?case by simp
next
  case (5 qv x xs st)
  from "5.IH"(1) "5.prems" obtain st1 where p: "collectHTTPSamplers qv x st = Inr st1"
    by auto
  from "5.IH"(2) [OF p] "5.prems" p show ?case
    by simp
next
  case (6 qv st)
  show ?case by simp
next
  case (7 qv k v kvs st)
  from "7.IH"(1) "7.prems" obtain st1 where p: "collectHTTPSamplers qv v st = Inr st1"
    by auto
  from "7.IH"(2) [OF p] "7.prems" p show ?case
    by simp
qed

section \<open>Sub-matches of the pattern suite\<close>

text \<open>
  Claim C10. For every input string, \<open>extractLiterals\<close> returns, and every sub-match it
  returns has at least 6 characters, does not begin with \<open>${\<close> and is neither
  \<open>true\<close> nor \<open>false\<close>: the ignorability filter rejects none of them, so adding the
  sub-matches without the filter never adds an ignorable value to a request's set.
\<close>

theorem extractLiterals_sub_matches:
  "\<exists>ls. extractLiterals text = Some ls \<and>
     (\<forall>m \<in> set ls. 6 \<le> length m \<and> \<not> startsWith m ''${'' \<and> m \<noteq> ''true'' \<and> m \<noteq> ''false''
        \<and> \<not> isIgnorable m)"
proof -
  obtain ls where "extractLiterals text = Some ls" "list_all subMatchOk ls"
    using extractLiterals_total by blast
  then show ?thesis
    using subMatchOk_not_ignorable by (auto simp: list_all_iff subMatchOk_def)
qed

theorem extractLiterals_sub_matches_witness:
  "extractLiterals ''/orders/123?status=true'' = Some [''orders'', ''status'']
   \<and> \<not> isIgnorable ''orders'' \<and> \<not> isIgnorable ''status''"
proof -
  have e: "extractLiterals ''/orders/123?status=true'' = Some [''orders'', ''status'']"
    by code_simp
  show ?thesis
    using extractLiterals_sub_matches [of "''/orders/123?status=true''"] e by simp
qed

section \<open>Classification\<close>

text \<open>
  Claim C5, as stated, fails: \<open>looksLikeJWT\<close> only asks that the value begins with
  \<open>eyJ\<close> and that splitting it at the dots gives three pieces, whatever the pieces hold.
  The value \<open>eyJ a.b.c\<close> has a space in its first segment, so it has none of the four
  shapes, and the code classifies it as a JWT.
\<close>

theorem classifyValue_jwt_counterexample:
  "classifyValue ''eyJ a.b.c'' = JWT_TOKEN \<and> \<not> jwtShape ''eyJ a.b.c''
   \<and> spec_classifyValue ''eyJ a.b.c'' = UNKNOWN"
  by code_simp

text \<open>
  Claim C5, amended. For every string \<open>v\<close>, \<open>classifyValue v\<close> is the tag of the first
  predicate \<open>v\<close> satisfies in the order JWT_TOKEN, UUID, NUMERIC_ID, GENERIC_DYNAMIC_VALUE,
  else UNKNOWN, where the JWT predicate is: \<open>v\<close> begins with \<open>eyJ\<close> and holds exactly two
  dots (three dot-separated segments of any characters, empty ones included); the other
  three are the shapes of section 4.3 anchored to the whole of \<open>v\<close> (canonical 8-4-4-4-12
  hexadecimal UUID of either case, 6 to 14 digits, 6 to 20 letters or digits).
\<close>

theorem classifyValue_priority:
  "classifyValue v =
     (if startsWith v ''eyJ'' \<and> count_list v CHR ''.'' = 2 then JWT_TOKEN
      else if uuidShape v then UUID
      else if numericShape v then NUMERIC_ID
      else if alphaNumericShape v then GENERIC_DYNAMIC_VALUE
      else UNKNOWN)"
  by (simp only: classifyValue_def looksLikeJWT_iff looksLikeUUID_iff looksLikeNumericId_iff
      looksLikeAlphaNumeric_iff)

theorem classifyValue_priority_witness:
  "classifyValue ''018ee423-7e8a-4c2e-9b1a-2f6e5d7c8b90'' = UUID"
proof -
  have "\<not> startsWith ''018ee423-7e8a-4c2e-9b1a-2f6e5d7c8b90'' ''eyJ''"
    and "uuidShape ''018ee423-7e8a-4c2e-9b1a-2f6e5d7c8b90''"
    by code_simp+
  then show ?thesis
    using classifyValue_priority [of "''018ee423-7e8a-4c2e-9b1a-2f6e5d7c8b90''"] by simp
qed

section \<open>Confidence\<close>

text \<open>
  Claim C6. For every value \<open>v\<close> and occurrence list, \<open>calculateConfidence\<close> returns HIGH
  if the list has at least 3 occurrences or \<open>v\<close> classifies as JWT_TOKEN or UUID; otherwise
  MEDIUM if \<open>v\<close> classifies as NUMERIC_ID; otherwise LOW.
\<close>

theorem calculateConfidence_cases:
  "calculateConfidence v occurrences =
     (if 3 \<le> length occurrences \<or> classifyValue v = JWT_TOKEN \<or> classifyValue v = UUID then HIGH
      else if classifyValue v = NUMERIC_ID then MEDIUM
      else LOW)"
  by (simp add: calculateConfidence_def classifyValue_def)

theorem calculateConfidence_cases_witness:
  "calculateConfidence ''20240117'' [()] = MEDIUM"
proof -
  have "classifyValue ''20240117'' = NUMERIC_ID"
    by code_simp
  then show ?thesis
    using calculateConfidence_cases [of "''20240117''" "[()]"] by simp
qed

section \<open>The scenario of the two requests\<close>

text \<open>
  Claim C1, as stated, fails. The pattern suite is run over every argument value, and in
  \<open>eyJabc.def.ghi\<close> the alphanumeric pattern matches the run \<open>eyJabc\<close> that ends at the
  first dot. The run enters both requests' sets beside the token, so the report holds two
  suggestions, not one.
\<close>

theorem loginProfile_counterexample:
  "(case analyzeDocument plainQueryValues ''plan.jmx'' loginProfileDoc of
      Inl e \<Rightarrow> []
    | Inr rep \<Rightarrow> map detectedValue (suggestions rep)) = [''eyJabc.def.ghi'', ''eyJabc'']"
  by code_simp

text \<open>
  Claim C1, amended. For the document with exactly the two requests Login (order 1, argument
  \<open>token = eyJabc.def.ghi\<close>) and GetProfile (order 2, argument
  \<open>Authorization = eyJabc.def.ghi\<close>), the report holds exactly two suggestions. The first
  has detectedValue \<open>eyJabc.def.ghi\<close>, valueType JWT_TOKEN, confidence HIGH, usedInSamplers
  Login, GetProfile and the extractor \<open>Regex Extractor\<close>. The second has detectedValue
  \<open>eyJabc\<close>, valueType GENERIC_DYNAMIC_VALUE, confidence LOW and the same usedInSamplers.
\<close>

theorem loginProfile_report:
  "analyzeDocument qv file loginProfileDoc
     = Inr \<lparr>jmxFile = file, samplersScanned = 2, correlationCandidates = 2,
            suggestions =
              [\<lparr>detectedValue = ''eyJabc.def.ghi'', valueType = JWT_TOKEN, confidence = HIGH,
                usedInSamplers = [JString ''Login'', JString ''GetProfile''],
                recommendation =
                  \<lparr>extractor = ''Regex Extractor'', variableName = ''jwt_token'',
                   regex = Some ''eyJ[a-zA-Z0-9._-]+'', jsonPath = None,
                   usage = ''Extract token from login response and use in Authorization header''\<rparr>\<rparr>,
               \<lparr>detectedValue = ''eyJabc'', valueType = GENERIC_DYNAMIC_VALUE, confidence = LOW,
                usedInSamplers = [JString ''Login'', JString ''GetProfile''],
                recommendation =
                  \<lparr>extractor = ''Regex / JSON Extractor'', variableName = ''dynamic_var'',
                   regex = None, jsonPath = None,
                   usage = ''Extract from previous response before reuse''\<rparr>\<rparr>]\<rparr>"
  by code_simp

theorem loginProfile_report_witness:
  "map_sum id correlationCandidates (analyzeDocument plainQueryValues ''login.jmx'' loginProfileDoc) = Inr 2"
  using loginProfile_report [of plainQueryValues "''login.jmx''"] by simp

section \<open>The scenario of the short path\<close>

text \<open>
  Claim C3, as stated, fails. The document holds one request with no arguments, its path
  among the string properties the repository's converter writes for a request. The number
  \<open>123\<close> is below the floor of the numeric pattern and the query value \<open>true\<close> is
  ignorable, but the alphanumeric pattern runs over the whole path string and matches its
  words of 6 to 20 letters, \<open>orders\<close> and \<open>status\<close>: the report holds two
  suggestions, not none.
\<close>

theorem orders_counterexample:
  "map_sum id correlationCandidates (analyzeDocument plainQueryValues ''plan.jmx'' ordersDoc) = Inr 2"
  by code_simp

text \<open>
  Claim C3, amended. For every document with exactly one request sampler, where the sampler
  has no arguments and the engine reads its path \<open>/orders/123?status=true\<close> (the sampler
  has two or more \<open>stringProp\<close> children, so that the parser gives an array, and the first
  of them named \<open>HTTPSampler.path\<close> holds that text, white space around it apart), and
  where the platform gives the one value \<open>true\<close> for the query \<open>status=true\<close>: the
  report holds exactly two suggestions, \<open>orders\<close> and \<open>status\<close>, both of valueType
  GENERIC_DYNAMIC_VALUE and confidence LOW and used in that sampler; neither \<open>123\<close> nor
  \<open>true\<close> is detected.
\<close>

theorem orders_report:
  assumes "samplerNodes doc = [s]"
    and "getProp s ''stringProp'' = Some (JArray ps)"
    and "List.find (hasName ''HTTPSampler.path'') ps = Some p"
    and "getProp p ''_'' = Some (JString t)"
    and "trim t = ''/orders/123?status=true''"
    and "argListOf s = []"
    and "qv ''status=true'' = [''true'']"
  shows "analyzeDocument qv file doc
     = Inr \<lparr>jmxFile = file, samplersScanned = 1, correlationCandidates = 2,
            suggestions =
              [\<lparr>detectedValue = ''orders'', valueType = GENERIC_DYNAMIC_VALUE, confidence = LOW,
                usedInSamplers = [nameOrDefault s 1],
                recommendation =
                  \<lparr>extractor = ''Regex / JSON Extractor'', variableName = ''dynamic_var'',
                   regex = None, jsonPath = None,
                   usage = ''Extract from previous response before reuse''\<rparr>\<rparr>,
               \<lparr>detectedValue = ''status'', valueType = GENERIC_DYNAMIC_VALUE, confidence = LOW,
                usedInSamplers = [nameOrDefault s 1],
                recommendation =
                  \<lparr>extractor = ''Regex / JSON Extractor'', variableName = ''dynamic_var'',
                   regex = None, jsonPath = None,
                   usage = ''Extract from previous response before reuse''\<rparr>\<rparr>]\<rparr>"
proof -
  have "extractRequestValues qv s = Inr [''orders'', ''status'']"
    using assms(2-7) by (rule extractRequestValues_orders [of s ps p t qv])
  from report_of_one_sampler [OF assms(1) this] show ?thesis
    by (simp only: suggestions_orders Let_def list.size) simp
qed

theorem orders_report_witness:
  "samplerNodes ordersDoc = [ordersSampler]
   \<and> getProp ordersSampler ''stringProp'' = Some (JArray ordersProps)
   \<and> List.find (hasName ''HTTPSampler.path'') ordersProps
       = Some (textElement ''HTTPSampler.path'' ''/orders/123?status=true'')
   \<and> argListOf ordersSampler = []
   \<and> plainQueryValues ''status=true'' = [''true'']
   \<and> analyzeDocument plainQueryValues ''orders.jmx'' ordersDoc
     = Inr \<lparr>jmxFile = ''orders.jmx'', samplersScanned = 1, correlationCandidates = 2,
            suggestions =
              [\<lparr>detectedValue = ''orders'', valueType = GENERIC_DYNAMIC_VALUE, confidence = LOW,
                usedInSamplers = [JString ''GetOrder''],
                recommendation =
                  \<lparr>extractor = ''Regex / JSON Extractor'', variableName = ''dynamic_var'',
                   regex = None, jsonPath = None,
                   usage = ''Extract from previous response before reuse''\<rparr>\<rparr>,
               \<lparr>detectedValue = ''status'', valueType = GENERIC_DYNAMIC_VALUE, confidence = LOW,
                usedInSamplers = [JString ''GetOrder''],
                recommendation =
                  \<lparr>extractor = ''Regex / JSON Extractor'', variableName = ''dynamic_var'',
                   regex = None, jsonPath = None,
                   usage = ''Extract from previous response before reuse''\<rparr>\<rparr>]\<rparr>"
proof -
  let ?p = "textElement ''HTTPSampler.path'' ''/orders/123?status=true''"
  have n: "samplerNodes ordersDoc = [ordersSampler]"
    by code_simp
  have a: "getProp ordersSampler ''stringProp'' = Some (JArray ordersProps)"
    by code_simp
  have f: "List.find (hasName ''HTTPSampler.path'') ordersProps = Some ?p"
    by code_simp
  have t: "getProp ?p ''_'' = Some (JString ''/orders/123?status=true'')"
    by code_simp
  have tr: "trim ''/orders/123?status=true'' = ''/orders/123?status=true''"
    by code_simp
  have g: "argListOf ordersSampler = []"
    by code_simp
  have q: "plainQueryValues ''status=true'' = [''true'']"
    by code_simp
  have nm: "nameOrDefault ordersSampler 1 = JString ''GetOrder''"
    by code_simp
  from orders_report [of _ _ _ _ _ plainQueryValues "''orders.jmx''", OF n a f t tr g q]
    n a f g q nm
  show ?thesis
    by simp
qed

text \<open>
  Where the path is the sampler's only \<open>stringProp\<close> child, the parser gives the child
  itself and not an array; the lookup of the path then finds nothing, the path is not read
  and the report is empty (\<open>ordersSingleDoc_report\<close>). The amended claim says nothing of
  such a document.
\<close>

lemma ordersSingleDoc_samplers:
  "samplerNodes ordersSingleDoc
     = [samplerElement ''GetOrder''
         [(''stringProp'', textElement ''HTTPSampler.path'' ''/orders/123?status=true'')]]"
  by code_simp

section \<open>Ignorable values\<close>

text \<open>
  Claim C2. For every document, no suggestion of the report has a detectedValue of length
  below 4, equal to \<open>true\<close> or \<open>false\<close>, or beginning with \<open>${\<close>: the detected values
  are the keys of the index (\<open>detectedValues\<close>), and no ignorable value becomes a key
  (\<open>keys_not_ignorable\<close>).
\<close>

theorem ignorable_never_detected:
  assumes "analyzeDocument qv file doc = Inr rep" and "sg \<in> set (suggestions rep)"
  shows "\<not> length (detectedValue sg) < 4 \<and> detectedValue sg \<noteq> ''true'' \<and>
         detectedValue sg \<noteq> ''false'' \<and> \<not> startsWith (detectedValue sg) ''${'' \<and>
         \<not> isIgnorable (detectedValue sg)"
proof -
  from assms(1) obtain samplers k where
    rep: "suggestions rep = buildCorrelationSuggestions (buildValueIndex samplers)"
    by (rule analyzeDocument_Inr) simp
  from assms(2) have "detectedValue sg \<in> set (map detectedValue (suggestions rep))"
    by simp
  then have "detectedValue sg \<in> set (map fst (buildValueIndex samplers))"
    by (simp only: rep detectedValues)
  then have "\<not> isIgnorable (detectedValue sg)"
    by (rule keys_not_ignorable)
  then show ?thesis
    by (simp add: isIgnorable_iff)
qed

theorem ignorable_never_detected_witness:
  "analyzeDocument plainQueryValues ''plan.jmx'' ordersDoc
     = Inr \<lparr>jmxFile = ''plan.jmx'', samplersScanned = 1, correlationCandidates = 2,
            suggestions =
              [\<lparr>detectedValue = ''orders'', valueType = GENERIC_DYNAMIC_VALUE, confidence = LOW,
                usedInSamplers = [JString ''GetOrder''],
                recommendation =
                  \<lparr>extractor = ''Regex / JSON Extractor'', variableName = ''dynamic_var'',
                   regex = None, jsonPath = None,
                   usage = ''Extract from previous response before reuse''\<rparr>\<rparr>,
               \<lparr>detectedValue = ''status'', valueType = GENERIC_DYNAMIC_VALUE, confidence = LOW,
                usedInSamplers = [JString ''GetOrder''],
                recommendation =
                  \<lparr>extractor = ''Regex / JSON Extractor'', variableName = ''dynamic_var'',
                   regex = None, jsonPath = None,
                   usage = ''Extract from previous response before reuse''\<rparr>\<rparr>]\<rparr>
   \<and> \<not> isIgnorable ''status'' \<and> \<not> length ''status'' < 4"
proof -
  have r: "analyzeDocument plainQueryValues ''plan.jmx'' ordersDoc
     = Inr \<lparr>jmxFile = ''plan.jmx'', samplersScanned = 1, correlationCandidates = 2,
            suggestions =
              [\<lparr>detectedValue = ''orders'', valueType = GENERIC_DYNAMIC_VALUE, confidence = LOW,
                usedInSamplers = [JString ''GetOrder''],
                recommendation =
                  \<lparr>extractor = ''Regex / JSON Extractor'', variableName = ''dynamic_var'',
                   regex = None, jsonPath = None,
                   usage = ''Extract from previous response before reuse''\<rparr>\<rparr>,
               \<lparr>detectedValue = ''status'', valueType = GENERIC_DYNAMIC_VALUE, confidence = LOW,
                usedInSamplers = [JString ''GetOrder''],
                recommendation =
                  \<lparr>extractor = ''Regex / JSON Extractor'', variableName = ''dynamic_var'',
                   regex = None, jsonPath = None,
                   usage = ''Extract from previous response before reuse''\<rparr>\<rparr>]\<rparr>"
    by code_simp
  have m: "\<lparr>detectedValue = ''status'', valueType = GENERIC_DYNAMIC_VALUE, confidence = LOW,
             usedInSamplers = [JString ''GetOrder''],
             recommendation =
               \<lparr>extractor = ''Regex / JSON Extractor'', variableName = ''dynamic_var'',
                regex = None, jsonPath = None,
                usage = ''Extract from previous response before reuse''\<rparr>\<rparr>
           \<in> set (suggestions
              \<lparr>jmxFile = ''plan.jmx'', samplersScanned = 1, correlationCandidates = 2,
            suggestions =
              [\<lparr>detectedValue = ''orders'', valueType = GENERIC_DYNAMIC_VALUE, confidence = LOW,
                usedInSamplers = [JString ''GetOrder''],
                recommendation =
                  \<lparr>extractor = ''Regex / JSON Extractor'', variableName = ''dynamic_var'',
                   regex = None, jsonPath = None,
                   usage = ''Extract from previous response before reuse''\<rparr>\<rparr>,
               \<lparr>detectedValue = ''status'', valueType = GENERIC_DYNAMIC_VALUE, confidence = LOW,
                usedInSamplers = [JString ''GetOrder''],
                recommendation =
                  \<lparr>extractor = ''Regex / JSON Extractor'', variableName = ''dynamic_var'',
                   regex = None, jsonPath = None,
                   usage = ''Extract from previous response before reuse''\<rparr>\<rparr>]\<rparr>)"
    by simp
  from ignorable_never_detected [OF r m] r show ?thesis
    by simp
qed

section \<open>One occurrence per sampler, first-seen order\<close>

text \<open>
  Claim C7. For every document, with the samplers its traversal collects: no sampler holds
  a value twice; an entry of the index for the value \<open>v\<close> holds exactly one occurrence of
  every sampler whose values contain \<open>v\<close> and none of any other sampler; the suggestions of
  the report are in the order of the keys of the index, which is the order in which the
  non-ignorable values are first seen over the samplers in traversal order.
\<close>

theorem index_one_occurrence_first_seen_order:
  assumes "collectHTTPSamplers qv doc ([], 0) = Inr (samplers, k)"
    and "analyzeDocument qv file doc = Inr rep"
  shows "(\<forall>s \<in> set samplers. distinct (requestValues s)) \<and>
         (\<forall>(v, occs) \<in> set (buildValueIndex samplers). \<forall>s \<in> set samplers.
             length (filter (\<lambda>oc. occOrder oc = order s) occs)
               = (if v \<in> set (requestValues s) then 1 else 0)) \<and>
         map detectedValue (suggestions rep) = map fst (buildValueIndex samplers) \<and>
         map fst (buildValueIndex samplers)
           = firstSeen (filter (\<lambda>v. \<not> isIgnorable v) (concat (map requestValues samplers)))"
proof -
  note col = collected_samplers [OF assms(1)]
  have dord: "distinct (map order samplers)"
    by (simp only: col(1) distinct_upt)
  have one: "length (filter (\<lambda>oc. occOrder oc = order s) occs)
               = (if v \<in> set (requestValues s) then 1 else 0)"
    if e: "(v, occs) \<in> set (buildValueIndex samplers)" and s: "s \<in> set samplers" for v occs s
  proof -
    from e have "v \<in> set (map fst (buildValueIndex samplers))"
      by force
    then have "\<not> isIgnorable v"
      by (rule keys_not_ignorable)
    from occs_of_key [OF col(2) this] entry_occs [OF e]
    have occs: "occs = map occOf (filter (\<lambda>s. v \<in> set (requestValues s)) samplers)"
      by simp
    have "length (filter (\<lambda>oc. occOrder oc = order s) occs)
        = length (filter (\<lambda>x. order x = order s \<and> v \<in> set (requestValues x)) samplers)"
      by (simp add: occs filter_map comp_def occOf_def conj_commute)
    also have "\<dots> = (if v \<in> set (requestValues s) then 1 else 0)"
      using dord s by (rule one_per_key)
    finally show ?thesis .
  qed
  from assms(2) obtain samplers' k' where
    c: "collectHTTPSamplers qv doc ([], 0) = Inr (samplers', k')" and
    r: "suggestions rep = buildCorrelationSuggestions (buildValueIndex samplers')"
    by (rule analyzeDocument_Inr) simp
  from c assms(1) have "samplers' = samplers"
    by simp
  with r have dv: "map detectedValue (suggestions rep) = map fst (buildValueIndex samplers)"
    by (simp add: detectedValues)
  have "\<forall>(v, occs) \<in> set (buildValueIndex samplers). \<forall>s \<in> set samplers.
             length (filter (\<lambda>oc. occOrder oc = order s) occs)
               = (if v \<in> set (requestValues s) then 1 else 0)"
    using one by blast
  with col(2) dv keys_buildValueIndex [of samplers] show ?thesis
    by (intro conjI)
qed

theorem index_one_occurrence_first_seen_order_witness:
  "collectHTTPSamplers plainQueryValues loginProfileDoc ([], 0)
     = Inr ([\<lparr>order = 1, name = JString ''Login'', requestValues = [''eyJabc.def.ghi'', ''eyJabc'']\<rparr>,
             \<lparr>order = 2, name = JString ''GetProfile'', requestValues = [''eyJabc.def.ghi'', ''eyJabc'']\<rparr>], 2)
   \<and> map fst (buildValueIndex
         [\<lparr>order = 1, name = JString ''Login'', requestValues = [''eyJabc.def.ghi'', ''eyJabc'']\<rparr>,
          \<lparr>order = 2, name = JString ''GetProfile'', requestValues = [''eyJabc.def.ghi'', ''eyJabc'']\<rparr>])
       = firstSeen [''eyJabc.def.ghi'', ''eyJabc'', ''eyJabc.def.ghi'', ''eyJabc'']"
proof -
  have c: "collectHTTPSamplers plainQueryValues loginProfileDoc ([], 0)
     = Inr ([\<lparr>order = 1, name = JString ''Login'', requestValues = [''eyJabc.def.ghi'', ''eyJabc'']\<rparr>,
             \<lparr>order = 2, name = JString ''GetProfile'', requestValues = [''eyJabc.def.ghi'', ''eyJabc'']\<rparr>], 2)"
    by code_simp
  have r: "analyzeDocument plainQueryValues ''plan.jmx'' loginProfileDoc
     = Inr \<lparr>jmxFile = ''plan.jmx'', samplersScanned = 2, correlationCandidates = 2,
            suggestions =
              [\<lparr>detectedValue = ''eyJabc.def.ghi'', valueType = JWT_TOKEN, confidence = HIGH,
                usedInSamplers = [JString ''Login'', JString ''GetProfile''],
                recommendation =
                  \<lparr>extractor = ''Regex Extractor'', variableName = ''jwt_token'',
                   regex = Some ''eyJ[a-zA-Z0-9._-]+'', jsonPath = None,
                   usage = ''Extract token from login response and use in Authorization header''\<rparr>\<rparr>,
               \<lparr>detectedValue = ''eyJabc'', valueType = GENERIC_DYNAMIC_VALUE, confidence = LOW,
                usedInSamplers = [JString ''Login'', JString ''GetProfile''],
                recommendation =
                  \<lparr>extractor = ''Regex / JSON Extractor'', variableName = ''dynamic_var'',
                   regex = None, jsonPath = None,
                   usage = ''Extract from previous response before reuse''\<rparr>\<rparr>]\<rparr>"
    by code_simp
  have i: "\<not> isIgnorable ''eyJabc.def.ghi''" "\<not> isIgnorable ''eyJabc''"
    by code_simp+
  from index_one_occurrence_first_seen_order [OF c r]
  have k: "map fst (buildValueIndex
         [\<lparr>order = 1, name = JString ''Login'', requestValues = [''eyJabc.def.ghi'', ''eyJabc'']\<rparr>,
          \<lparr>order = 2, name = JString ''GetProfile'', requestValues = [''eyJabc.def.ghi'', ''eyJabc'']\<rparr>])
      = firstSeen (filter (\<lambda>v. \<not> isIgnorable v) (concat (map requestValues
         [\<lparr>order = 1, name = JString ''Login'', requestValues = [''eyJabc.def.ghi'', ''eyJabc'']\<rparr>,
          \<lparr>order = 2, name = JString ''GetProfile'', requestValues = [''eyJabc.def.ghi'', ''eyJabc'']\<rparr>])))"
    by blast
  have "filter (\<lambda>v. \<not> isIgnorable v) (concat (map requestValues
         [\<lparr>order = 1, name = JString ''Login'', requestValues = [''eyJabc.def.ghi'', ''eyJabc'']\<rparr>,
          \<lparr>order = 2, name = JString ''GetProfile'', requestValues = [''eyJabc.def.ghi'', ''eyJabc'']\<rparr>]))
      = [''eyJabc.def.ghi'', ''eyJabc'', ''eyJabc.def.ghi'', ''eyJabc'']"
    using i by simp
  with k c show ?thesis
    by (simp only: simp_thms)
qed

section \<open>A value of sixteen digits\<close>

text \<open>
  Claim C4, as stated, fails. The numeric pattern is \<open>\d{6,14}\<close>, so a string of 16 digits
  is no numeric id; it is an alphanumeric run of 6 to 20 characters. In one request it is
  classified GENERIC_DYNAMIC_VALUE with confidence LOW.
\<close>

theorem sixteen_digits_counterexample:
  "analyzeDocument plainQueryValues ''plan.jmx'' cardDoc
     = Inr \<lparr>jmxFile = ''plan.jmx'', samplersScanned = 1, correlationCandidates = 1,
            suggestions =
              [\<lparr>detectedValue = ''1234567890123456'', valueType = GENERIC_DYNAMIC_VALUE,
                confidence = LOW, usedInSamplers = [JString ''Pay''],
                recommendation =
                  \<lparr>extractor = ''Regex / JSON Extractor'', variableName = ''dynamic_var'',
                   regex = None, jsonPath = None,
                   usage = ''Extract from previous response before reuse''\<rparr>\<rparr>]\<rparr>
   \<and> classifyValue ''1234567890123456'' \<noteq> NUMERIC_ID"
  by code_simp

text \<open>
  Claim C4, amended. For every string of exactly 16 decimal digits that occurs as a value in
  \<open>n\<close> requests of a document, \<open>n\<close> at least 1, the report holds exactly one suggestion for
  it; its valueType is GENERIC_DYNAMIC_VALUE, and its confidence is LOW when \<open>n\<close> is below 3
  (so in exactly one request) and HIGH when \<open>n\<close> is 3 or more.
\<close>

theorem sixteen_digit_value_suggestion:
  assumes "collectHTTPSamplers qv doc ([], 0) = Inr (samplers, k)"
    and "analyzeDocument qv file doc = Inr rep"
    and "length v = 16" and "list_all isDigit v"
    and "n = length (filter (\<lambda>s. v \<in> set (requestValues s)) samplers)" and "0 < n"
  shows "\<exists>sg. filter (\<lambda>sg. detectedValue sg = v) (suggestions rep) = [sg] \<and>
           valueType sg = GENERIC_DYNAMIC_VALUE \<and>
           confidence sg = (if 3 \<le> n then HIGH else LOW)"
proof -
  note d = sixteen_digits [OF assms(3,4)]
  from assms(5,6) have "filter (\<lambda>s. v \<in> set (requestValues s)) samplers \<noteq> []"
    by auto
  then obtain s where s: "s \<in> set samplers" "v \<in> set (requestValues s)"
    by (auto simp add: filter_empty_conv)
  with d(1) have "v \<in> set (map fst (buildValueIndex samplers))"
    by (auto simp add: keys_buildValueIndex set_firstSeen)
  then obtain occs where e: "(v, occs) \<in> set (buildValueIndex samplers)"
    by auto
  from occs_of_key [OF collected_samplers(2) [OF assms(1)] d(1)] entry_occs [OF e] assms(5)
  have len: "length occs = n"
    by simp
  from assms(2) obtain samplers' k' where
    c: "collectHTTPSamplers qv doc ([], 0) = Inr (samplers', k')" and
    r: "suggestions rep = buildCorrelationSuggestions (buildValueIndex samplers')"
    by (rule analyzeDocument_Inr) simp
  from c assms(1) r have "suggestions rep = buildCorrelationSuggestions (buildValueIndex samplers)"
    by simp
  with suggestions_for_value [OF e]
  have "filter (\<lambda>sg. detectedValue sg = v) (suggestions rep) = [suggest (v, occs)]"
    by simp
  moreover have "valueType (suggest (v, occs)) = GENERIC_DYNAMIC_VALUE"
    by (simp add: suggest_def Let_def d(2))
  moreover have "confidence (suggest (v, occs)) = (if 3 \<le> n then HIGH else LOW)"
    by (simp add: suggest_def Let_def d(3) len)
  ultimately show ?thesis
    by blast
qed

theorem sixteen_digit_value_suggestion_witness:
  "(\<exists>sg. filter (\<lambda>sg. detectedValue sg = ''1234567890123456'')
              (suggestions
                 \<lparr>jmxFile = ''plan.jmx'', samplersScanned = 1, correlationCandidates = 1,
                  suggestions =
                    [\<lparr>detectedValue = ''1234567890123456'', valueType = GENERIC_DYNAMIC_VALUE,
                      confidence = LOW, usedInSamplers = [JString ''Pay''],
                      recommendation =
                        buildRecommendation ''1234567890123456'' GENERIC_DYNAMIC_VALUE\<rparr>]\<rparr>) = [sg]
          \<and> valueType sg = GENERIC_DYNAMIC_VALUE \<and> confidence sg = LOW)
   \<and> (\<exists>sg. filter (\<lambda>sg. detectedValue sg = ''1234567890123456'')
              (suggestions
                 \<lparr>jmxFile = ''plan.jmx'', samplersScanned = 3, correlationCandidates = 1,
                  suggestions =
                    [\<lparr>detectedValue = ''1234567890123456'', valueType = GENERIC_DYNAMIC_VALUE,
                      confidence = HIGH,
                      usedInSamplers = [JString ''Pay'', JString ''Confirm'', JString ''Receipt''],
                      recommendation =
                        buildRecommendation ''1234567890123456'' GENERIC_DYNAMIC_VALUE\<rparr>]\<rparr>) = [sg]
          \<and> valueType sg = GENERIC_DYNAMIC_VALUE \<and> confidence sg = HIGH)"
proof -
  have d: "list_all isDigit ''1234567890123456''"
    by code_simp
  have c1: "collectHTTPSamplers plainQueryValues cardDoc ([], 0)
     = Inr ([\<lparr>order = 1, name = JString ''Pay'', requestValues = [''1234567890123456'']\<rparr>], 1)"
    by code_simp
  have r1: "analyzeDocument plainQueryValues ''plan.jmx'' cardDoc
     = Inr \<lparr>jmxFile = ''plan.jmx'', samplersScanned = 1, correlationCandidates = 1,
            suggestions =
              [\<lparr>detectedValue = ''1234567890123456'', valueType = GENERIC_DYNAMIC_VALUE,
                confidence = LOW, usedInSamplers = [JString ''Pay''],
                recommendation = buildRecommendation ''1234567890123456'' GENERIC_DYNAMIC_VALUE\<rparr>]\<rparr>"
    by code_simp
  have n1: "(1::nat) = length (filter (\<lambda>s. ''1234567890123456'' \<in> set (requestValues s))
      [\<lparr>order = 1, name = JString ''Pay'', requestValues = [''1234567890123456'']\<rparr>])"
    by simp
  have c3: "collectHTTPSamplers plainQueryValues cardThriceDoc ([], 0)
     = Inr ([\<lparr>order = 1, name = JString ''Pay'', requestValues = [''1234567890123456'']\<rparr>,
             \<lparr>order = 2, name = JString ''Confirm'', requestValues = [''1234567890123456'']\<rparr>,
             \<lparr>order = 3, name = JString ''Receipt'', requestValues = [''1234567890123456'']\<rparr>], 3)"
    by code_simp
  have r3: "analyzeDocument plainQueryValues ''plan.jmx'' cardThriceDoc
     = Inr \<lparr>jmxFile = ''plan.jmx'', samplersScanned = 3, correlationCandidates = 1,
            suggestions =
              [\<lparr>detectedValue = ''1234567890123456'', valueType = GENERIC_DYNAMIC_VALUE,
                confidence = HIGH,
                usedInSamplers = [JString ''Pay'', JString ''Confirm'', JString ''Receipt''],
                recommendation = buildRecommendation ''1234567890123456'' GENERIC_DYNAMIC_VALUE\<rparr>]\<rparr>"
    by code_simp
  have n3: "(3::nat) = length (filter (\<lambda>s. ''1234567890123456'' \<in> set (requestValues s))
      [\<lparr>order = 1, name = JString ''Pay'', requestValues = [''1234567890123456'']\<rparr>,
       \<lparr>order = 2, name = JString ''Confirm'', requestValues = [''1234567890123456'']\<rparr>,
       \<lparr>order = 3, name = JString ''Receipt'', requestValues = [''1234567890123456'']\<rparr>])"
    by simp
  from sixteen_digit_value_suggestion [OF c1 r1 _ d n1]
    sixteen_digit_value_suggestion [OF c3 r3 _ d n3]
  show ?thesis
    by simp
qed

section \<open>Failures\<close>

text \<open>
  Claim C9, at a document on which the engine fails. In the tree of
  \<open><HTTPSamplerProxy><stringProp><find>x</find></stringProp></HTTPSamplerProxy>\<close> the
  sampler's \<open>stringProp\<close> is an object whose entry \<open>find\<close> is the string \<open>x\<close>; the lookup
  of the path calls it, and the call raises a TypeError instead of degrading to the empty
  default.
\<close>

theorem findChild_TypeError:
  "analyzeDocument plainQueryValues ''plan.jmx'' findChildDoc = Inl TypeError"
  by code_simp

text \<open>
  The failure is confined to such trees. On every tree in which no \<open>stringProp\<close> object has
  an entry \<open>find\<close> and every \<open>_\<close> is a string, the engine returns a report: missing names,
  paths, arguments and string properties degrade to their defaults, and the loops of the
  pattern suite end.
\<close>

lemma analyzeDocument_total:
  assumes "wellShaped doc"
  shows "\<exists>rep. analyzeDocument qv file doc = Inr rep \<and> correlationCandidates rep = length (suggestions rep)"
proof -
  from collect_total(1) [OF assms, of qv "([], 0)"] obtain samplers k where
    "collectHTTPSamplers qv doc ([], 0) = Inr (samplers, k)"
    by (metis surj_pair)
  then show ?thesis
    by (simp add: analyzeDocument_def Let_def)
qed

lemma findChildDoc_not_wellShaped: "\<not> wellShaped findChildDoc"
  by code_simp

lemma wellShaped_scenarios: "wellShaped loginProfileDoc" "wellShaped ordersDoc" "wellShaped cardDoc"
  by code_simp+

text \<open>
  The entry point adds three failures of its own, each before the engine runs: the path does
  not exist, the file cannot be read, the text is not XML. Past them its result is the
  engine's result on the parsed tree.
\<close>

lemma analyzeJMXForCorrelation_cases:
  "\<not> existsSync pf p \<Longrightarrow> analyzeJMXForCorrelation pf p = Inl (FileNotFound p)"
  "existsSync pf p \<Longrightarrow> readFileSync pf p = None \<Longrightarrow> analyzeJMXForCorrelation pf p = Inl ReadError"
  "existsSync pf p \<Longrightarrow> readFileSync pf p = Some xml \<Longrightarrow> parseXml pf xml = None
     \<Longrightarrow> analyzeJMXForCorrelation pf p = Inl ParseError"
  "existsSync pf p \<Longrightarrow> readFileSync pf p = Some xml \<Longrightarrow> parseXml pf xml = Some doc
     \<Longrightarrow> analyzeJMXForCorrelation pf p = analyzeDocument (searchParamsValues pf) (basename pf p) doc"
  by (simp_all add: analyzeJMXForCorrelation_def)

lemma analyzeJMXForCorrelation_total:
  assumes "existsSync pf p" and "readFileSync pf p = Some xml" and "parseXml pf xml = Some doc"
    and "wellShaped doc"
  shows "\<exists>rep. analyzeJMXForCorrelation pf p = Inr rep \<and> jmxFile rep = basename pf p"
proof -
  from collect_total(1) [OF assms(4), of "searchParamsValues pf" "([], 0)"] obtain samplers k where
    "collectHTTPSamplers (searchParamsValues pf) doc ([], 0) = Inr (samplers, k)"
    by (metis surj_pair)
  then have "\<exists>rep. analyzeDocument (searchParamsValues pf) (basename pf p) doc = Inr rep
      \<and> jmxFile rep = basename pf p"
    by (simp add: analyzeDocument_def Let_def)
  with analyzeJMXForCorrelation_cases(4) [OF assms(1-3)] show ?thesis
    by simp
qed

lemma findChildDoc_fails: "analyzeDocument qv file findChildDoc = Inl TypeError"
  by code_simp

lemma analyzeJMXForCorrelation_findChild:
  assumes "existsSync pf p" and "readFileSync pf p = Some xml" and "parseXml pf xml = Some findChildDoc"
  shows "analyzeJMXForCorrelation pf p = Inl TypeError"
  using analyzeJMXForCorrelation_cases(4) [OF assms] findChildDoc_fails
  by simp

end
